theory Spec2Isabelle
  imports Main "HOL-Library.Word"
begin

unbundle bit_operations_syntax

section \<open>Data model\<close>

text \<open>
  The library is built for an LP64 host here: \<open>size_t\<close> is a 64-bit unsigned integer.
  A C buffer \<open>(const char *data, size_t length)\<close> is the list of its \<open>length\<close> bytes;
  advancing a pointer into it drops bytes from the front of the list.
\<close>

type_synonym byte = "8 word"
type_synonym size_t = "64 word"

text \<open>
  \<open>abort()\<close>, a failed \<open>assert\<close>, and an access through a null pointer or outside an
  array or buffer end the call; each is a value of this type.
\<close>

datatype error = Abort | AssertFailed | OutOfBounds

text \<open>\<open>sizeof(__sha256_block_t)\<close>: one SHA-256 block is 64 bytes.\<close>

definition sizeof_block :: nat where
  "sizeof_block = 64"

text \<open>\<open>memset(temp, 0, n)\<close> on a fresh array and \<open>memcpy(dst, src, n)\<close>.\<close>

definition memset0 :: "nat \<Rightarrow> byte list" where
  "memset0 n = replicate n 0"

definition memcpy :: "byte list \<Rightarrow> byte list \<Rightarrow> nat \<Rightarrow> byte list" where
  "memcpy dst src n = take n src @ drop n dst"

section \<open>Hash256::AddSHA256To\<close>

text \<open>
  \<open>__sha256_osol(blk, asInts())\<close> compresses one block into the hash object. The
  compression function is a parameter \<open>osol\<close>: a block and the object before give the
  object after. The object's type is left open.

  The \<open>for\<close> loop of the source feeds block \<open>n\<close> and advances \<open>blks\<close>, for
  \<open>n = 0, ..., no - 1\<close>. The counts are natural numbers: \<open>no * sizeof(__sha256_block_t)\<close>
  is at most \<open>length\<close>, so nothing wraps around.
\<close>

function osol_blocks ::
  "(byte list \<Rightarrow> 'h \<Rightarrow> 'h) \<Rightarrow> nat \<Rightarrow> nat \<Rightarrow> byte list \<Rightarrow> 'h \<Rightarrow> byte list \<times> 'h" where
  "osol_blocks osol n no blks h =
     (if n < no
      then osol_blocks osol (n + 1) no (drop sizeof_block blks) (osol (take sizeof_block blks) h)
      else (blks, h))"
  by pat_completeness auto
termination
  by (relation "measure (\<lambda>(osol, n, no, blks, h). no - n)") auto

definition AddSHA256To :: "(byte list \<Rightarrow> 'h \<Rightarrow> 'h) \<Rightarrow> byte list \<Rightarrow> 'h \<Rightarrow> 'h" where
  "AddSHA256To osol data h =
     (let length = List.length data;
          no = length div sizeof_block;
          remaining = length - no * sizeof_block;
          (blks, h1) = osol_blocks osol 0 no data h
      in if remaining \<noteq> 0
         then (let temp = memset0 sizeof_block;
                   temp = memcpy temp blks remaining
               in osol temp h1)
         else h1)"

text \<open>
  The single-message path as the specification words it: the input is cut into
  consecutive 64-byte blocks, a final partial block is padded with zero bytes up to 64
  bytes, and the blocks go through the compression function in order.
\<close>

function blocks_of :: "byte list \<Rightarrow> byte list list" where
  "blocks_of xs = (if xs = [] then [] else take 64 xs # blocks_of (drop 64 xs))"
  by pat_completeness auto
termination
  by (relation "measure List.length") auto

definition zero_pad :: "byte list \<Rightarrow> byte list" where
  "zero_pad b = b @ replicate (64 - List.length b) 0"

definition hashOne_spec :: "(byte list \<Rightarrow> 'h \<Rightarrow> 'h) \<Rightarrow> byte list \<Rightarrow> 'h \<Rightarrow> 'h" where
  "hashOne_spec osol data h = foldl (\<lambda>s b. osol (zero_pad b) s) h (blocks_of data)"

section \<open>Hash256::BatchAddSHA256To\<close>

text \<open>
  The local variables of the call. The three arrays \<open>blks\<close>, \<open>lengths\<close> and \<open>out\<close>
  have four entries, indexed by the lane \<open>0..3\<close>; a null pointer is \<open>None\<close>. A block
  pointer is the list of the bytes from it to the end of its message, a pointer to a
  destination is its index in \<open>hashs\<close>. The arguments \<open>data\<close> and \<open>length\<close> advance
  together and are one list of messages (the rest of the input), \<open>hashs++\<close> is the
  index \<open>hcur\<close>, and \<open>no\<close> is the \<open>size_t\<close> counter of the source, which line 189
  decrements and compares with \<open>(size_t)-1\<close>.
\<close>

record 'h batch =
  blks :: "nat \<Rightarrow> byte list option"
  lengths :: "nat \<Rightarrow> nat"
  out :: "nat \<Rightarrow> nat option"
  tobefinished :: "(nat option \<times> byte list \<times> nat) list"
  no :: size_t
  data :: "byte list list"
  hcur :: nat
  hashs :: "'h list"
  is_done :: bool

text \<open>
  Lines 184 to 194: an empty lane takes the next message while \<open>no\<close> is not zero. The
  result carries whether the \<open>break\<close> of line 192 was taken. Reading \<open>data\<close> or \<open>hashs\<close>
  beyond the arrays the caller passed is an error.
\<close>

definition refill :: "nat \<Rightarrow> 'h batch \<Rightarrow> error + (bool \<times> 'h batch)" where
  "refill n s =
     (if blks s n = None \<and> no s \<noteq> 0
      then (case data s of
              [] \<Rightarrow> Inl OutOfBounds
            | d # rest \<Rightarrow>
                if hcur s < List.length (hashs s)
                then (let s1 = s\<lparr>blks := (blks s)(n := Some d),
                                  out := (out s)(n := Some (hcur s)),
                                  lengths := (lengths s)(n := List.length d),
                                  data := rest,
                                  hcur := hcur s + 1,
                                  no := no s - 1\<rparr>
                      in if no s1 = - 1
                         then Inr (True, s1\<lparr>is_done := True\<rparr>)
                         else Inr (False, s1))
                else Inl OutOfBounds)
      else Inr (False, s))"

text \<open>Lines 196 to 202: a lane with less than one block left is retired.\<close>

definition retire :: "nat \<Rightarrow> 'h batch \<Rightarrow> 'h batch" where
  "retire n s =
     (case blks s n of
        None \<Rightarrow> s
      | Some p \<Rightarrow>
          if lengths s n < sizeof_block
          then (let s1 = (if lengths s n \<noteq> 0
                          then s\<lparr>tobefinished := tobefinished s @ [(out s n, p, lengths s n)]\<rparr>
                          else s)
                in s1\<lparr>blks := (blks s1)(n := None)\<rparr>)
          else s)"

text \<open>The \<open>for\<close> loop of lines 182 to 203, from lane \<open>n\<close> on.\<close>

function fill_streams :: "nat \<Rightarrow> 'h batch \<Rightarrow> error + 'h batch" where
  "fill_streams n s =
     (if n < 4
      then (case refill n s of
              Inl e \<Rightarrow> Inl e
            | Inr (broke, s1) \<Rightarrow>
                if broke then Inr s1 else fill_streams (n + 1) (retire n s1))
      else Inr s)"
  by pat_completeness auto
termination
  by (relation "measure (\<lambda>(n, s). 4 - n)") auto

text \<open>
  Lines 205 to 211, the assertions that a build without \<open>NDEBUG\<close> makes: every lane
  has a block pointer and at least one whole block left.
\<close>

definition lanes_ready :: "'h batch \<Rightarrow> bool" where
  "lanes_ready s = list_all (\<lambda>n. blks s n \<noteq> None \<and> sizeof_block \<le> lengths s n) [0..<4]"

text \<open>
  Modelled from the spec: \<open>__sha256_int\<close> (hashes/sha256/sha256-sse.c is not among the
  sources), the 4-wide interleaved compression step that advances the running state of
  each of the four lanes by one block: lane \<open>n\<close> compresses the 64 bytes at \<open>blks[n]\<close>
  into the destination \<open>out[n]\<close>. Nothing can be read or written through a null
  pointer, and nothing can be read beyond the end of the message.
\<close>

fun sha256_lanes ::
  "(byte list \<Rightarrow> 'h \<Rightarrow> 'h) \<Rightarrow> nat list \<Rightarrow> (nat \<Rightarrow> byte list option) \<Rightarrow> (nat \<Rightarrow> nat option) \<Rightarrow>
   'h list \<Rightarrow> error + 'h list" where
  "sha256_lanes osol [] bl ou hs = Inr hs"
| "sha256_lanes osol (n # ns) bl ou hs =
     (case (bl n, ou n) of
        (Some p, Some i) \<Rightarrow>
          if sizeof_block \<le> List.length p \<and> i < List.length hs
          then sha256_lanes osol ns bl ou (hs[i := osol (take sizeof_block p) (hs ! i)])
          else Inl OutOfBounds
      | _ \<Rightarrow> Inl OutOfBounds)"

definition sha256_int ::
  "(byte list \<Rightarrow> 'h \<Rightarrow> 'h) \<Rightarrow> (nat \<Rightarrow> byte list option) \<Rightarrow> (nat \<Rightarrow> nat option) \<Rightarrow>
   'h list \<Rightarrow> error + 'h list" where
  "sha256_int osol bl ou hs = sha256_lanes osol [0, 1, 2, 3] bl ou hs"

text \<open>
  Lines 213 to 217: every lane moves one block on. The lengths are natural numbers
  here: the step is reached only after \<open>__sha256_int\<close> has read a whole block in each
  lane.
\<close>

definition advance :: "'h batch \<Rightarrow> 'h batch" where
  "advance s =
     s\<lparr>blks := (\<lambda>n. if n < 4 then map_option (drop sizeof_block) (blks s n) else blks s n),
       lengths := (\<lambda>n. if n < 4 then lengths s n - sizeof_block else lengths s n)\<rparr>"

text \<open>
  The weight of a state: the bytes from the block pointers of the lanes to the ends of
  their messages, and the bytes of the messages not yet started. It bounds the number
  of rounds of the main loop.
\<close>

definition lane_weight :: "'h batch \<Rightarrow> nat \<Rightarrow> nat" where
  "lane_weight s n = (case blks s n of None \<Rightarrow> 0 | Some p \<Rightarrow> List.length p)"

definition weight :: "'h batch \<Rightarrow> nat" where
  "weight s = lane_weight s 0 + lane_weight s 1 + lane_weight s 2 + lane_weight s 3
              + sum_list (map List.length (data s))"

text \<open>
  The main loop, lines 179 to 218 (the unbalanced closing parenthesis of line 216 is
  dropped). It is left only through the two tests of \<open>done\<close>. \<open>ndebug\<close> says whether the
  build defines \<open>NDEBUG\<close>, which removes the assertions.
\<close>

function batch_loop ::
  "bool \<Rightarrow> (byte list \<Rightarrow> 'h \<Rightarrow> 'h) \<Rightarrow> 'h batch \<Rightarrow> error + 'h batch" where
  "batch_loop ndebug osol s =
     (if \<not> is_done s
      then (case fill_streams 0 s of
              Inl e \<Rightarrow> Inl e
            | Inr s1 \<Rightarrow>
                if is_done s1 then Inr s1
                else if \<not> ndebug \<and> \<not> lanes_ready s1 then Inl AssertFailed
                else (case sha256_int osol (blks s1) (out s1) (hashs s1) of
                        Inl e \<Rightarrow> Inl e
                      | Inr hs \<Rightarrow> batch_loop ndebug osol (advance (s1\<lparr>hashs := hs\<rparr>))))
      else Inr s)"
  by pat_completeness auto
termination
proof (relation "measure (\<lambda>(ndebug, osol, s). weight s)")
  show "wf (measure (\<lambda>(ndebug :: bool, osol :: byte list \<Rightarrow> 'h \<Rightarrow> 'h, s). weight s))" by simp
next
  fix ndebug :: bool and osol :: "byte list \<Rightarrow> 'h \<Rightarrow> 'h" and s s1 :: "'h batch"
    and hs :: "'h list"
  assume fs: "fill_streams 0 s = Inr s1"
    and sh: "sha256_int osol (blks s1) (out s1) (hashs s1) = Inr hs"
  have four: "n = 0 \<or> n = 1 \<or> n = 2 \<or> n = 3" if "n < 4" for n :: nat
    using that by arith
  have upd_w: "weight t1 \<le> weight t"
    if n: "n < 4" and a: "lane_weight t1 n + k \<le> lane_weight t n"
      and o: "\<And>m. m \<noteq> n \<Longrightarrow> lane_weight t1 m = lane_weight t m"
      and d: "sum_list (map List.length (data t1)) \<le> sum_list (map List.length (data t)) + k"
    for t t1 :: "'h batch" and n k :: nat
    using four [OF n]
  proof (elim disjE)
    assume "n = 0" with a o [of 1] o [of 2] o [of 3] d show ?thesis by (simp add: weight_def)
  next
    assume "n = 1" with a o [of 0] o [of 2] o [of 3] d show ?thesis by (simp add: weight_def)
  next
    assume "n = 2" with a o [of 0] o [of 1] o [of 3] d show ?thesis by (simp add: weight_def)
  next
    assume "n = 3" with a o [of 0] o [of 1] o [of 2] d show ?thesis by (simp add: weight_def)
  qed
  have refill_w: "weight t1 \<le> weight t"
    if r: "refill n t = Inr (b, t1)" and n: "n < 4" for t t1 :: "'h batch" and n b
  proof (cases "blks t n = None \<and> no t \<noteq> 0")
    case False
    with r show ?thesis by (simp add: refill_def)
  next
    case True
    with r obtain d rest where dt: "data t = d # rest"
      by (auto simp: refill_def split: list.splits)
    from True r dt have b1: "blks t1 = (blks t)(n := Some d)" and d1: "data t1 = rest"
      by (auto simp: refill_def Let_def split: if_splits)
    from True have w0: "lane_weight t n = 0" by (simp add: lane_weight_def)
    have wn: "lane_weight t1 n = List.length d"
      by (simp add: lane_weight_def b1)
    have wo: "lane_weight t1 m = lane_weight t m" if "m \<noteq> n" for m
      using that by (simp add: lane_weight_def b1 split: option.splits)
    have "weight t1 = weight t"
      using four [OF n] w0 wn wo [of 0] wo [of 1] wo [of 2] wo [of 3] dt d1
      by (elim disjE) (simp_all add: weight_def)
    then show ?thesis by simp
  qed
  have retire_w: "weight (retire n t) \<le> weight t" if n: "n < 4" for t :: "'h batch" and n
  proof -
    have a: "lane_weight (retire n t) n + 0 \<le> lane_weight t n"
      by (auto simp: retire_def lane_weight_def Let_def split: option.splits)
    have o: "\<And>m. m \<noteq> n \<Longrightarrow> lane_weight (retire n t) m = lane_weight t m"
      by (auto simp: retire_def lane_weight_def Let_def split: option.splits)
    have d: "sum_list (map List.length (data (retire n t))) \<le> sum_list (map List.length (data t)) + 0"
      by (auto simp: retire_def Let_def split: option.splits)
    from upd_w [OF n a o d] show ?thesis .
  qed
  have fill_w: "fill_streams n t = Inr t1 \<Longrightarrow> weight t1 \<le> weight t"
    for t t1 :: "'h batch" and n
  proof (induction n t rule: fill_streams.induct)
    case (1 n t)
    show ?case
    proof (cases "n < 4")
      case False
      with "1.prems" show ?thesis by simp
    next
      case True
      from "1.prems" True obtain b t2 where r: "refill n t = Inr (b, t2)"
        by (auto split: sum.splits)
      show ?thesis
      proof (cases b)
        case True
        with r "1.prems" \<open>n < 4\<close> refill_w [OF r \<open>n < 4\<close>] show ?thesis by simp
      next
        case False
        with r "1.prems" \<open>n < 4\<close> have f: "fill_streams (n + 1) (retire n t2) = Inr t1"
          by simp
        from "1.IH" [OF \<open>n < 4\<close> r refl False f]
        have "weight t1 \<le> weight (retire n t2)" .
        with retire_w [OF \<open>n < 4\<close>, of t2] refill_w [OF r \<open>n < 4\<close>] show ?thesis by simp
      qed
    qed
  qed
  have read: "\<forall>n \<in> set ns. \<exists>p. bl n = Some p \<and> sizeof_block \<le> List.length p"
    if "sha256_lanes osol ns bl ou hs0 = Inr hs1"
    for ns bl ou and hs0 hs1 :: "'h list"
    using that
  proof (induction ns arbitrary: hs0)
    case Nil
    show ?case by simp
  next
    case (Cons n ns)
    from Cons.prems obtain p i where b: "bl n = Some p" and o: "ou n = Some i"
      by (auto split: option.splits)
    with Cons.prems have ok: "sizeof_block \<le> List.length p"
      and rest: "sha256_lanes osol ns bl ou (hs0[i := osol (take sizeof_block p) (hs0 ! i)]) = Inr hs1"
      by (auto split: if_splits)
    from Cons.IH [OF rest] b ok show ?case by simp
  qed
  from read [of "[0, 1, 2, 3]" "blks s1" "out s1" "hashs s1" hs] sh
  have r: "\<exists>p. blks s1 n = Some p \<and> sizeof_block \<le> List.length p" if "n < 4" for n
    using that four [OF that] by (auto simp: sha256_int_def)
  have lw: "lane_weight (advance (s1\<lparr>hashs := hs\<rparr>)) n + 64 = lane_weight s1 n" if "n < 4" for n
    using r [OF that] that
    by (auto simp: lane_weight_def advance_def sizeof_block_def split: option.splits)
  have dd: "data (advance (s1\<lparr>hashs := hs\<rparr>)) = data s1"
    by (simp add: advance_def)
  have "weight (advance (s1\<lparr>hashs := hs\<rparr>)) < weight s1"
    using lw [of 0] lw [of 1] lw [of 2] lw [of 3] dd by (simp add: weight_def)
  with fill_w [OF fs]
  show "((ndebug, osol, advance (s1\<lparr>hashs := hs\<rparr>)), (ndebug, osol, s))
        \<in> measure (\<lambda>(ndebug, osol, s). weight s)"
    by simp
qed

text \<open>Lines 219 to 225: each deferred tail is padded with zeros and compressed.\<close>

fun finish ::
  "(byte list \<Rightarrow> 'h \<Rightarrow> 'h) \<Rightarrow> (nat option \<times> byte list \<times> nat) list \<Rightarrow> 'h list \<Rightarrow> error + 'h list" where
  "finish osol [] hs = Inr hs"
| "finish osol ((None, p, len) # rest) hs = Inl OutOfBounds"
| "finish osol ((Some i, p, len) # rest) hs =
     (if i < List.length hs
      then (let temp = memset0 sizeof_block;
                temp = memcpy temp p len
            in finish osol rest (hs[i := osol temp (hs ! i)]))
      else Inl OutOfBounds)"

text \<open>
  The call: \<open>no'\<close> messages \<open>data'\<close> (each with its length) are to be hashed into the
  destinations \<open>hashs'\<close>; the primes tell the arguments from the variables of the loop.
  The result is the array of destinations after the call.
\<close>

definition BatchAddSHA256To ::
  "bool \<Rightarrow> (byte list \<Rightarrow> 'h \<Rightarrow> 'h) \<Rightarrow> size_t \<Rightarrow> 'h list \<Rightarrow> byte list list \<Rightarrow> error + 'h list" where
  "BatchAddSHA256To ndebug osol no' hashs' data' =
     (let s = \<lparr>blks = (\<lambda>n. None), lengths = (\<lambda>n. 0), out = (\<lambda>n. None), tobefinished = [],
                no = no', data = data', hcur = 0, hashs = hashs', is_done = False\<rparr>
      in case batch_loop ndebug osol s of
           Inl e \<Rightarrow> Inl e
         | Inr s1 \<Rightarrow> finish osol (tobefinished s1) (hashs s1))"

text \<open>
  What holds of the variables at the head of the main loop when the caller passed
  arrays of at least \<open>no\<close> entries: the messages and destinations not yet taken are
  there, and every lane with a block pointer has a destination and, in \<open>lengths\<close>, the
  number of bytes its message has left.
\<close>

definition batch_inv :: "'h batch \<Rightarrow> bool" where
  "batch_inv s \<longleftrightarrow>
     unat (no s) \<le> List.length (data s) \<and>
     hcur s + unat (no s) \<le> List.length (hashs s) \<and>
     (\<forall>n p. blks s n = Some p \<longrightarrow>
        lengths s n = List.length p \<and> (\<exists>i < List.length (hashs s). out s n = Some i)) \<and>
     \<not> is_done s"

section \<open>Integers in byte storage\<close>

text \<open>
  \<open>Int128\<close> and \<open>Int256\<close> are 16 and 32 bytes of storage, which the code also reads
  and writes as arrays of 32-bit and 64-bit integers (\<open>asInts()\<close>, \<open>asLongLongs()\<close>) in
  the byte order of the host. The byte order is a parameter of every function that
  goes through such an overlay.
\<close>

datatype endian = LittleEndian | BigEndian

fun le_bytes :: "nat \<Rightarrow> nat \<Rightarrow> byte list" where
  "le_bytes 0 v = []"
| "le_bytes (Suc k) v = of_nat (v mod 256) # le_bytes k (v div 256)"

fun le_value :: "byte list \<Rightarrow> nat" where
  "le_value [] = 0"
| "le_value (b # bs) = unat b + 256 * le_value bs"

text \<open>The \<open>k\<close> bytes that hold the integer \<open>w\<close>, and the integer that bytes hold.\<close>

definition store_word :: "endian \<Rightarrow> nat \<Rightarrow> 'a::len word \<Rightarrow> byte list" where
  "store_word e k w =
     (case e of LittleEndian \<Rightarrow> le_bytes k (unat w) | BigEndian \<Rightarrow> rev (le_bytes k (unat w)))"

definition load_word :: "endian \<Rightarrow> byte list \<Rightarrow> 'a::len word" where
  "load_word e bs =
     of_nat (le_value (case e of LittleEndian \<Rightarrow> bs | BigEndian \<Rightarrow> rev bs))"

definition sizeof_Int128 :: size_t where
  "sizeof_Int128 = 16"

definition sizeof_Int256 :: size_t where
  "sizeof_Int256 = 32"

section \<open>FillRandom and its callers\<close>

text \<open>
  A generator of the standard library is its state and the function \<open>gen()\<close>, which
  gives the next output and the state after it. On LP64 the generators are
  \<open>mt19937_64\<close> and \<open>ranlux48_base\<close>, whose \<open>result_type\<close> is a 64-bit integer of 8
  bytes. The state a generator has after \<open>generator_type gen(rd())\<close>, seeded from the
  entropy source, is an argument of the model.
\<close>

type_synonym 'g generator = "'g \<Rightarrow> 64 word \<times> 'g"

definition sizeof_result :: size_t where
  "sizeof_result = 8"

text \<open>
  \<open>*tofill = w\<close> for a pointer \<open>tofill\<close> at byte offset \<open>off\<close> of the buffer: the bytes
  of the word replace the bytes there. A write that does not lie within the buffer is
  an error.
\<close>

definition poke :: "byte list \<Rightarrow> nat \<Rightarrow> byte list \<Rightarrow> error + byte list" where
  "poke buf off bs =
     (if off + List.length bs \<le> List.length buf
      then Inr (take off buf @ bs @ drop (off + List.length bs) buf)
      else Inl OutOfBounds)"

text \<open>Lines 52 and 53: \<open>thisno\<close> words are generated and written one after another.\<close>

function fill_words ::
  "endian \<Rightarrow> 'g generator \<Rightarrow> nat \<Rightarrow> nat \<Rightarrow> byte list \<Rightarrow> nat \<Rightarrow> 'g \<Rightarrow> error + (byte list \<times> nat \<times> 'g)" where
  "fill_words e gen n thisno buf tofill g =
     (if n < thisno
      then (case gen g of (w, g1) \<Rightarrow>
              (case poke buf tofill (store_word e (unat sizeof_result) w) of
                 Inl err \<Rightarrow> Inl err
               | Inr buf1 \<Rightarrow>
                   fill_words e gen (n + 1) thisno buf1 (tofill + unat sizeof_result) g1))
      else Inr (buf, tofill, g))"
  by pat_completeness auto
termination
  by (relation "measure (\<lambda>(e, gen, n, thisno, buf, tofill, g). thisno - n)") auto

text \<open>
  Lines 56 to 59: the loop for the bytes after the last whole word. \<open>remaining\<close> is a
  \<open>size_t\<close>, and \<open>remaining -= sizeof(result_type)\<close> wraps around.
\<close>

function fill_remaining ::
  "endian \<Rightarrow> 'g generator \<Rightarrow> size_t \<Rightarrow> byte list \<Rightarrow> nat \<Rightarrow> 'g \<Rightarrow> error + (byte list \<times> nat \<times> 'g)" where
  "fill_remaining e gen remaining buf tofill g =
     (if remaining > 0
      then (case gen g of (w, g1) \<Rightarrow>
              (case poke buf tofill (store_word e (unat sizeof_result) w) of
                 Inl err \<Rightarrow> Inl err
               | Inr buf1 \<Rightarrow>
                   fill_remaining e gen (remaining - sizeof_result) buf1
                     (tofill + unat sizeof_result) g1))
      else Inr (buf, tofill, g))"
  by pat_completeness auto
termination
proof (relation "measure (\<lambda>(e, gen, remaining, buf, tofill, g). List.length buf - tofill)")
  show "wf (measure (\<lambda>(e :: endian, gen :: 'g generator, remaining :: size_t, buf :: byte list,
                        tofill :: nat, g :: 'g). List.length buf - tofill))"
    by simp
next
  fix e :: endian and gen :: "'g generator" and remaining :: size_t
    and buf buf1 :: "byte list" and tofill :: nat and g g1 :: 'g and w :: "64 word" and x
  assume p: "poke buf tofill (store_word e (unat sizeof_result) w) = Inr buf1"
  have "List.length (le_bytes k v) = k" for k v
    by (induction k arbitrary: v) simp_all
  then have "List.length (store_word e (unat sizeof_result) w) = 8"
    by (cases e) (simp_all add: store_word_def sizeof_result_def)
  with p have "List.length buf1 = List.length buf" and "tofill < List.length buf"
    by (auto simp: poke_def split: if_splits)
  then show "((e, gen, remaining - sizeof_result, buf1, tofill + unat sizeof_result, g1),
              (e, gen, remaining, buf, tofill, g))
             \<in> measure (\<lambda>(e, gen, remaining, buf, tofill, g). List.length buf - tofill)"
    by (simp add: sizeof_result_def)
qed

text \<open>
  \<open>FillRandom\<close>, lines 33 to 62, with \<open>partitions = 1\<close> and \<open>thispartition = 0\<close> as the
  source fixes them. \<open>buffer\<close> is the storage the caller passes and \<open>length'\<close> the
  \<open>size_t\<close> it passes with it.
\<close>

definition FillRandom ::
  "endian \<Rightarrow> 'g generator \<Rightarrow> 'g \<Rightarrow> byte list \<Rightarrow> size_t \<Rightarrow> error + byte list" where
  "FillRandom e gen g buffer length' =
     (let partitions = (1 :: size_t);
          thispartition = (0 :: size_t);
          thislength = (length' div partitions) AND NOT (sizeof_result - 1);
          thisno = thislength div sizeof_result;
          tofill = (if thispartition \<noteq> 0
                    then unat sizeof_result * unat (thisno * thispartition) else 0)
      in case fill_words e gen 0 (unat thisno) buffer tofill g of
           Inl err \<Rightarrow> Inl err
         | Inr (buf1, tofill1, g1) \<Rightarrow>
             if thispartition = partitions - 1
             then (case fill_remaining e gen (length' - thislength * partitions) buf1 tofill1 g1 of
                     Inl err \<Rightarrow> Inl err
                   | Inr (buf2, tofill2, g2) \<Rightarrow> Inr buf2)
             else Inr buf1)"

text \<open>
  \<open>Int128::FillQualityRandom\<close> and \<open>Int256::FillQualityRandom\<close>: \<open>ints\<close> is the storage
  of the array, \<open>no'\<close> the number of its elements, \<open>mt\<close> the Mersenne twister.
\<close>

definition Int128_FillQualityRandom ::
  "endian \<Rightarrow> 'g generator \<Rightarrow> 'g \<Rightarrow> byte list \<Rightarrow> size_t \<Rightarrow> error + byte list" where
  "Int128_FillQualityRandom e mt g ints no' =
     (let length' = no' * sizeof_Int128
      in if no' \<noteq> 0 \<and> no' \<noteq> length' div sizeof_Int128 then Inl Abort
         else FillRandom e mt g ints length')"

definition Int256_FillQualityRandom ::
  "endian \<Rightarrow> 'g generator \<Rightarrow> 'g \<Rightarrow> byte list \<Rightarrow> size_t \<Rightarrow> error + byte list" where
  "Int256_FillQualityRandom e mt g ints no' =
     (let length' = no' * sizeof_Int256
      in if no' \<noteq> 0 \<and> no' \<noteq> length' div sizeof_Int256 then Inl Abort
         else FillRandom e mt g ints length')"

text \<open>
  \<open>return;\<close> in the middle of a body: the call ends with the state it has, and the
  statements after it, given as \<open>rest\<close>, are not run.
\<close>

definition return_here :: "'a \<Rightarrow> ('a \<Rightarrow> error + 'a) \<Rightarrow> error + 'a" where
  "return_here v rest = Inr v"

text \<open>
  \<open>Int128::FillFastRandom\<close> and \<open>Int256::FillFastRandom\<close>, with both generators the body
  names: \<open>mt\<close> behind \<open>FillQualityRandom\<close> and \<open>ranlux\<close> in the statements after
  \<open>return\<close>.
\<close>

definition Int128_FillFastRandom ::
  "endian \<Rightarrow> 'g generator \<Rightarrow> 'g \<Rightarrow> 'r generator \<Rightarrow> 'r \<Rightarrow> byte list \<Rightarrow> size_t \<Rightarrow> error + byte list" where
  "Int128_FillFastRandom e mt g ranlux r ints no' =
     (case Int128_FillQualityRandom e mt g ints no' of
        Inl err \<Rightarrow> Inl err
      | Inr ints1 \<Rightarrow>
          return_here ints1
            (\<lambda>ints2. let length' = no' * sizeof_Int128
                     in if no' \<noteq> 0 \<and> no' \<noteq> length' div sizeof_Int128 then Inl Abort
                        else FillRandom e ranlux r ints2 length'))"

definition Int256_FillFastRandom ::
  "endian \<Rightarrow> 'g generator \<Rightarrow> 'g \<Rightarrow> 'r generator \<Rightarrow> 'r \<Rightarrow> byte list \<Rightarrow> size_t \<Rightarrow> error + byte list" where
  "Int256_FillFastRandom e mt g ranlux r ints no' =
     (case Int256_FillQualityRandom e mt g ints no' of
        Inl err \<Rightarrow> Inl err
      | Inr ints1 \<Rightarrow>
          return_here ints1
            (\<lambda>ints2. let length' = no' * sizeof_Int256
                     in if no' \<noteq> 0 \<and> no' \<noteq> length' div sizeof_Int256 then Inl Abort
                        else FillRandom e ranlux r ints2 length'))"

text \<open>The first \<open>k\<close> outputs of a generator started in state \<open>g\<close>.\<close>

fun outputs :: "'g generator \<Rightarrow> 'g \<Rightarrow> nat \<Rightarrow> 64 word list" where
  "outputs gen g 0 = []"
| "outputs gen g (Suc k) = (case gen g of (w, g1) \<Rightarrow> w # outputs gen g1 k)"

text \<open>A generator to run the model on: it puts out its state and counts up.\<close>

definition counter :: "64 word generator" where
  "counter g = (g, g + 1)"

section \<open>Hash128::AddFastHashTo and Hash256::AddFastHashTo\<close>

text \<open>
  \<open>asLongLongs()[i]\<close> read and written: the 64-bit integer in bytes \<open>8 i .. 8 i + 7\<close>
  of the storage.
\<close>

definition asLongLongs :: "endian \<Rightarrow> byte list \<Rightarrow> nat \<Rightarrow> 64 word" where
  "asLongLongs e h i = load_word e (take 8 (drop (8 * i) h))"

definition set_LongLong :: "endian \<Rightarrow> byte list \<Rightarrow> nat \<Rightarrow> 64 word \<Rightarrow> byte list" where
  "set_LongLong e h i w = take (8 * i) h @ store_word e 8 w @ drop (8 * i + 8) h"

text \<open>
  The two hash functions are arguments, since hashes/spookyhash and hashes/cityhash
  are not among the sources. \<open>SpookyHash::Hash128(data, length, hash1, hash2)\<close> reads
  two seeds through its pointers and writes the two halves of the hash back through
  them: \<open>spooky\<close> maps the message and the pair of seeds to the pair of results.
  \<open>CityHash128WithSeed(data, length, seed)\<close> maps the message and a \<open>uint128\<close>, a
  pair of 64-bit integers, to a \<open>uint128\<close>: \<open>city\<close>.
\<close>

type_synonym hash128_fn = "byte list \<Rightarrow> 64 word \<times> 64 word \<Rightarrow> 64 word \<times> 64 word"

definition Hash128_AddFastHashTo :: "endian \<Rightarrow> hash128_fn \<Rightarrow> byte list \<Rightarrow> byte list \<Rightarrow> byte list" where
  "Hash128_AddFastHashTo e spooky data' h =
     (case spooky data' (asLongLongs e h 0, asLongLongs e h 1) of
        (hash1, hash2) \<Rightarrow> set_LongLong e (set_LongLong e h 0 hash1) 1 hash2)"

text \<open>
  The body of the loop of lines 138 to 144 for one \<open>n\<close>, on the hash object and the
  local \<open>cityhash\<close>. The two rounds share no data, so their order does not matter.
\<close>

definition fast_round ::
  "endian \<Rightarrow> hash128_fn \<Rightarrow> hash128_fn \<Rightarrow> byte list \<Rightarrow> nat \<Rightarrow>
   byte list \<times> (64 word \<times> 64 word) \<Rightarrow> byte list \<times> (64 word \<times> 64 word)" where
  "fast_round e spooky city data' n st =
     (case st of (h, cityhash) \<Rightarrow>
        if n = 0
        then (case spooky data' (asLongLongs e h 0, asLongLongs e h 1) of
                (hash1, hash2) \<Rightarrow> (set_LongLong e (set_LongLong e h 0 hash1) 1 hash2, cityhash))
        else (h, city data' cityhash))"

definition Hash256_AddFastHashTo ::
  "endian \<Rightarrow> hash128_fn \<Rightarrow> hash128_fn \<Rightarrow> byte list \<Rightarrow> byte list \<Rightarrow> byte list" where
  "Hash256_AddFastHashTo e spooky city data' h =
     (let cityhash = (asLongLongs e h 2, asLongLongs e h 3)
      in case foldl (\<lambda>st n. fast_round e spooky city data' n st) (h, cityhash) [0, 1] of
           (h1, cityhash1) \<Rightarrow>
             set_LongLong e (set_LongLong e h1 2 (fst cityhash1)) 3 (snd cityhash1))"

section \<open>Comparison and rendering of the fixed-width values\<close>

text \<open>
  Modelled from the spec: the comparison operators of \<open>Int128\<close> and \<open>Int256\<close>
  (Int128_256.hpp is not among the sources). The order is a total order by interpreting
  the byte array as a big-endian unsigned integer, the most significant stored byte
  first; equality is byte-wise identity.
\<close>

definition be_value :: "byte list \<Rightarrow> nat" where
  "be_value bs = foldl (\<lambda>v b. 256 * v + unat b) 0 bs"

definition Int_less :: "byte list \<Rightarrow> byte list \<Rightarrow> bool" where
  "Int_less x y \<longleftrightarrow> be_value x < be_value y"

definition Int_equal :: "byte list \<Rightarrow> byte list \<Rightarrow> bool" where
  "Int_equal x y \<longleftrightarrow> x = y"

definition Int_greater :: "byte list \<Rightarrow> byte list \<Rightarrow> bool" where
  "Int_greater x y \<longleftrightarrow> be_value y < be_value x"

text \<open>
  \<open>memcmp(x, y, n)\<close> of the C library: the first \<open>n\<close> bytes are compared as unsigned
  values from the lowest address on, and the sign of the result is that of the first
  difference; the model returns \<open>-1\<close>, \<open>0\<close> or \<open>1\<close>.
\<close>

fun memcmp :: "byte list \<Rightarrow> byte list \<Rightarrow> nat \<Rightarrow> error + int" where
  "memcmp xs ys 0 = Inr 0"
| "memcmp (x # xs) (y # ys) (Suc n) =
     (if x = y then memcmp xs ys n else if x < y then Inr (- 1) else Inr 1)"
| "memcmp xs ys (Suc n) = Inl OutOfBounds"

text \<open>
  Modelled from the spec: the default constructor and \<open>asHexString()\<close>
  (Int128_256.hpp is not among the sources). Default construction yields the all-zero
  value; the string is the lower-case hexadecimal rendering of the stored bytes, most
  significant byte first, two characters for each byte.
\<close>

definition Hash256_null :: "byte list" where
  "Hash256_null = replicate 32 0"

definition hex_digit :: "nat \<Rightarrow> char" where
  "hex_digit n = ''0123456789abcdef'' ! n"

definition asHexString :: "byte list \<Rightarrow> string" where
  "asHexString h = concat (map (\<lambda>b. [hex_digit (unat b div 16), hex_digit (unat b mod 16)]) h)"

text \<open>The bytes of a C string literal.\<close>

definition bytes_of :: "string \<Rightarrow> byte list" where
  "bytes_of s = map (\<lambda>c. of_nat (of_char c)) s"

text \<open>The second message of the test \<open>SHA256/works\<close>, 43 bytes.\<close>

definition quick_brown_fox :: "byte list" where
  "quick_brown_fox = bytes_of ''The quick brown fox jumps over the lazy dog''"

section \<open>The compression function\<close>

text \<open>
  Modelled from the spec: \<open>__sha256_osol\<close> (hashes/sha256/sha256-ref.c is not among the
  sources), the compression function of SHA-256 as FIPS 180 publishes it, which folds
  one 64-byte block into the running state of eight 32-bit words.
\<close>

definition K256 :: "32 word list" where
  "K256 =
   [0x428A2F98, 0x71374491, 0xB5C0FBCF, 0xE9B5DBA5, 0x3956C25B, 0x59F111F1, 0x923F82A4, 0xAB1C5ED5,
    0xD807AA98, 0x12835B01, 0x243185BE, 0x550C7DC3, 0x72BE5D74, 0x80DEB1FE, 0x9BDC06A7, 0xC19BF174,
    0xE49B69C1, 0xEFBE4786, 0x0FC19DC6, 0x240CA1CC, 0x2DE92C6F, 0x4A7484AA, 0x5CB0A9DC, 0x76F988DA,
    0x983E5152, 0xA831C66D, 0xB00327C8, 0xBF597FC7, 0xC6E00BF3, 0xD5A79147, 0x06CA6351, 0x14292967,
    0x27B70A85, 0x2E1B2138, 0x4D2C6DFC, 0x53380D13, 0x650A7354, 0x766A0ABB, 0x81C2C92E, 0x92722C85,
    0xA2BFE8A1, 0xA81A664B, 0xC24B8B70, 0xC76C51A3, 0xD192E819, 0xD6990624, 0xF40E3585, 0x106AA070,
    0x19A4C116, 0x1E376C08, 0x2748774C, 0x34B0BCB5, 0x391C0CB3, 0x4ED8AA4A, 0x5B9CCA4F, 0x682E6FF3,
    0x748F82EE, 0x78A5636F, 0x84C87814, 0x8CC70208, 0x90BEFFFA, 0xA4506CEB, 0xBEF9A3F7, 0xC67178F2]"

definition Ch :: "32 word \<Rightarrow> 32 word \<Rightarrow> 32 word \<Rightarrow> 32 word" where
  "Ch x y z = (x AND y) XOR (NOT x AND z)"

definition Maj :: "32 word \<Rightarrow> 32 word \<Rightarrow> 32 word \<Rightarrow> 32 word" where
  "Maj x y z = (x AND y) XOR (x AND z) XOR (y AND z)"

definition Sigma0 :: "32 word \<Rightarrow> 32 word" where
  "Sigma0 x = word_rotr 2 x XOR word_rotr 13 x XOR word_rotr 22 x"

definition Sigma1 :: "32 word \<Rightarrow> 32 word" where
  "Sigma1 x = word_rotr 6 x XOR word_rotr 11 x XOR word_rotr 25 x"

definition sigma0 :: "32 word \<Rightarrow> 32 word" where
  "sigma0 x = word_rotr 7 x XOR word_rotr 18 x XOR drop_bit 3 x"

definition sigma1 :: "32 word \<Rightarrow> 32 word" where
  "sigma1 x = word_rotr 17 x XOR word_rotr 19 x XOR drop_bit 10 x"

text \<open>The sixteen big-endian words of a block, and the message schedule grown from them.\<close>

fun be_words :: "byte list \<Rightarrow> 32 word list" where
  "be_words (a # b # c # d # rest) =
     (push_bit 24 (ucast a) OR push_bit 16 (ucast b) OR push_bit 8 (ucast c) OR ucast d)
       # be_words rest"
| "be_words bs = []"

fun schedule :: "nat \<Rightarrow> 32 word list \<Rightarrow> 32 word list" where
  "schedule 0 w = w"
| "schedule (Suc k) w =
     (let t = List.length w
      in schedule k
           (w @ [sigma1 (w ! (t - 2)) + w ! (t - 7) + sigma0 (w ! (t - 15)) + w ! (t - 16)]))"

fun rounds :: "(32 word \<times> 32 word) list \<Rightarrow> 32 word list \<Rightarrow> 32 word list" where
  "rounds ((k, w) # kws) [a, b, c, d, e, f, g, h] =
     (let T1 = h + Sigma1 e + Ch e f g + k + w;
          T2 = Sigma0 a + Maj a b c
      in rounds kws [T1 + T2, a, b, c, d + T1, e, f, g])"
| "rounds kws v = v"

definition compress :: "byte list \<Rightarrow> 32 word list \<Rightarrow> 32 word list" where
  "compress blk H = map2 (+) H (rounds (zip K256 (schedule 48 (be_words blk))) H)"

text \<open>The initial hash value of FIPS 180.\<close>

definition sha256_H0 :: "32 word list" where
  "sha256_H0 = [0x6A09E667, 0xBB67AE85, 0x3C6EF372, 0xA54FF53A,
                0x510E527F, 0x9B05688C, 0x1F83D9AB, 0x5BE0CD19]"

text \<open>
  \<open>asInts()\<close>: the eight 32-bit integers in the 32 bytes of a \<open>Hash256\<close>, and
  \<open>__sha256_osol(blk, asInts())\<close> as a function on the object.
\<close>

definition asInts :: "endian \<Rightarrow> byte list \<Rightarrow> 32 word list" where
  "asInts e h = map (\<lambda>i. load_word e (take 4 (drop (4 * i) h))) [0..<8]"

definition sha256_osol :: "endian \<Rightarrow> byte list \<Rightarrow> byte list \<Rightarrow> byte list" where
  "sha256_osol e blk h = concat (map (store_word e 4) (compress blk (asInts e h)))"

section \<open>The single-message path\<close>

declare osol_blocks.simps [simp del] blocks_of.simps [simp del]

lemma blocks_of_Nil: "blocks_of [] = []"
  by (simp add: blocks_of.simps)

lemma blocks_of_step: "xs \<noteq> [] \<Longrightarrow> blocks_of xs = take 64 xs # blocks_of (drop 64 xs)"
  by (subst blocks_of.simps) simp

lemma zero_pad_full: "List.length b = 64 \<Longrightarrow> zero_pad b = b"
  by (simp add: zero_pad_def)

lemma memcpy_tail:
  "List.length bs = r \<Longrightarrow> r \<le> 64 \<Longrightarrow> memcpy (memset0 sizeof_block) bs r = zero_pad bs"
  by (simp add: memcpy_def memset0_def zero_pad_def sizeof_block_def)

text \<open>
  The loop over the whole blocks followed by the padded tail is the fold of the
  specification over the rest of the message, from any block boundary on.
\<close>

lemma osol_blocks_spec:
  "List.length bs = (k - n) * 64 + r \<Longrightarrow> r < 64 \<Longrightarrow>
   (case osol_blocks osol n k bs h of (b', h') \<Rightarrow>
      if r \<noteq> 0 then osol (memcpy (memset0 sizeof_block) b' r) h' else h')
   = hashOne_spec osol bs h"
proof (induction osol n k bs h rule: osol_blocks.induct)
  case (1 osol n k bs h)
  show ?case
  proof (cases "n < k")
    case True
    then have len: "List.length bs \<ge> 64" and ne: "bs \<noteq> []"
      using "1.prems" by auto
    have len': "List.length (drop sizeof_block bs) = (k - (n + 1)) * 64 + r"
      using True "1.prems" by (simp add: sizeof_block_def algebra_simps Suc_diff_Suc)
    have tk: "zero_pad (take 64 bs) = take 64 bs"
      using len by (simp add: zero_pad_full)
    from "1.IH" [OF True len' "1.prems"(2)] True tk
    show ?thesis
      by (subst osol_blocks.simps)
         (simp add: hashOne_spec_def blocks_of_step [OF ne] sizeof_block_def)
  next
    case False
    then have len: "List.length bs = r" using "1.prems" by simp
    show ?thesis
    proof (cases "r = 0")
      case True
      with len False show ?thesis
        by (subst osol_blocks.simps) (simp add: hashOne_spec_def blocks_of_Nil)
    next
      case r: False
      with len have ne: "bs \<noteq> []" by auto
      from len "1.prems" have "memcpy (memset0 sizeof_block) bs r = zero_pad bs"
        by (simp add: memcpy_tail)
      with False r len "1.prems" show ?thesis
        by (subst osol_blocks.simps)
           (simp add: hashOne_spec_def blocks_of_step [OF ne] blocks_of_Nil)
    qed
  qed
qed

lemma AddSHA256To_refines: "AddSHA256To osol msg h = hashOne_spec osol msg h"
proof -
  let ?no = "List.length msg div 64"
  let ?r = "List.length msg - ?no * 64"
  have a: "List.length msg = (?no - 0) * 64 + ?r" by simp
  have b: "?r < 64" by (simp add: minus_div_mult_eq_mod)
  obtain b' h' where ob: "osol_blocks osol 0 ?no msg h = (b', h')"
    by (cases "osol_blocks osol 0 ?no msg h")
  from osol_blocks_spec [OF a b, of osol h] ob
  have "(if ?r \<noteq> 0 then osol (memcpy (memset0 sizeof_block) b' ?r) h' else h')
        = hashOne_spec osol msg h"
    by simp
  with ob show ?thesis
    unfolding AddSHA256To_def Let_def sizeof_block_def
    by (auto split: if_splits)
qed

text \<open>With a compression function that only records its block, the fold lists the blocks.\<close>

lemma foldl_record: "foldl (\<lambda>s b. s @ [f b]) acc xs = acc @ map f xs"
  by (induction xs arbitrary: acc) simp_all

lemma hashOne_spec_record: "hashOne_spec (\<lambda>b t. t @ [b]) msg [] = map zero_pad (blocks_of msg)"
  by (simp add: hashOne_spec_def foldl_record)

lemma concat_padded_blocks:
  "concat (map zero_pad (blocks_of msg)) = msg @ replicate ((64 - List.length msg mod 64) mod 64) 0"
proof (induction msg rule: blocks_of.induct)
  case (1 xs)
  show ?case
  proof (cases "xs = []")
    case True
    then show ?thesis by (simp add: blocks_of_Nil)
  next
    case ne: False
    show ?thesis
    proof (cases "List.length xs < 64")
      case True
      with ne have "0 < List.length xs" by simp
      with True ne show ?thesis
        by (simp add: blocks_of_step [OF ne] blocks_of_Nil zero_pad_def)
    next
      case False
      then have ge: "64 \<le> List.length xs" by simp
      then have m: "(List.length xs - 64) mod 64 = List.length xs mod 64"
        by (simp add: le_mod_geq)
      have "take 64 xs @ drop 64 xs = xs" by simp
      with "1.IH" [OF ne] ge m show ?thesis
        by (simp add: blocks_of_step [OF ne] zero_pad_full flip: append_assoc)
    qed
  qed
qed

lemma length_padded_blocks:
  "map List.length (map zero_pad (blocks_of msg)) = replicate ((List.length msg + 63) div 64) 64"
proof (induction msg rule: blocks_of.induct)
  case (1 xs)
  show ?case
  proof (cases "xs = []")
    case True
    then show ?thesis by (simp add: blocks_of_Nil)
  next
    case ne: False
    show ?thesis
    proof (cases "List.length xs < 64")
      case True
      with ne have "0 < List.length xs" by simp
      with True have "(List.length xs + 63) div 64 = 1" by arith
      with True ne show ?thesis
        by (simp add: blocks_of_step [OF ne] blocks_of_Nil zero_pad_def)
    next
      case False
      then have ge: "64 \<le> List.length xs" by simp
      then have "(List.length xs + 63) div 64 = Suc ((List.length xs - 64 + 63) div 64)"
        by (simp add: le_div_geq)
      with "1.IH" [OF ne] ge show ?thesis
        by (simp add: blocks_of_step [OF ne] zero_pad_full)
    qed
  qed
qed

text \<open>
  C3. For every message and every destination, \<open>AddSHA256To\<close> does what the
  specification says of the single-message path: the message is cut into consecutive
  64-byte blocks, a final partial block is padded with zero bytes to 64 bytes, and the
  blocks are compressed in order. The blocks that reach the compression function are
  \<open>(length + 63) div 64\<close> blocks of 64 bytes, and put end to end they are the message
  followed by fewer than 64 zero bytes: there is no 1-bit and no length suffix.
\<close>

theorem AddSHA256To_zero_pads:
  "AddSHA256To osol msg h = hashOne_spec osol msg h \<and>
   concat (AddSHA256To (\<lambda>b t. t @ [b]) msg []) =
     msg @ replicate ((64 - List.length msg mod 64) mod 64) 0 \<and>
   map List.length (AddSHA256To (\<lambda>b t. t @ [b]) msg []) =
     replicate ((List.length msg + 63) div 64) 64"
  by (simp only: AddSHA256To_refines hashOne_spec_record concat_padded_blocks
                 length_padded_blocks)

text \<open>
  C7. For every destination value and every compression function, a call with length 0
  leaves the destination exactly as it was: no block is compressed.
\<close>

theorem AddSHA256To_empty: "AddSHA256To osol [] h = h"
  by (simp add: AddSHA256To_def sizeof_block_def osol_blocks.simps)

section \<open>The batch path\<close>

declare batch_loop.simps [simp del] fill_streams.simps [simp del]

text \<open>
  The test of line 189 is made only after \<open>no\<close> was found not to be zero, and a
  \<open>size_t\<close> that is not zero does not become \<open>(size_t)-1\<close> when one is taken from it.
  So no pass over the lanes sets \<open>done\<close>.
\<close>

lemma refill_not_done:
  "refill n s = Inr (b, s1) \<Longrightarrow> \<not> is_done s \<Longrightarrow> \<not> b \<and> \<not> is_done s1"
  by (auto simp: refill_def Let_def split: if_splits list.splits)

lemma retire_is_done: "is_done (retire n s) = is_done s"
  by (simp add: retire_def Let_def split: option.splits)

lemma fill_streams_not_done:
  "fill_streams n s = Inr s1 \<Longrightarrow> \<not> is_done s \<Longrightarrow> \<not> is_done s1"
proof (induction n s rule: fill_streams.induct)
  case (1 n s)
  show ?case
  proof (cases "n < 4")
    case False
    with "1.prems" show ?thesis by (simp add: fill_streams.simps)
  next
    case True
    with "1.prems" obtain b s2 where r: "refill n s = Inr (b, s2)"
      by (subst (asm) fill_streams.simps) (auto split: sum.splits)
    from refill_not_done [OF r "1.prems"(2)] have nb: "\<not> b" and nd: "\<not> is_done s2" by simp_all
    from "1.prems"(1) True r nb have f: "fill_streams (n + 1) (retire n s2) = Inr s1"
      by (subst (asm) fill_streams.simps) simp
    from nd have "\<not> is_done (retire n s2)" by (simp add: retire_is_done)
    from "1.IH" [OF True r refl nb f this] show ?thesis .
  qed
qed

lemma advance_is_done: "is_done (advance s) = is_done s"
  by (simp add: advance_def)

text \<open>The main loop is left through \<open>done\<close> only, so it is never left with a result.\<close>

lemma batch_loop_no_return: "\<not> is_done s \<Longrightarrow> batch_loop ndebug osol s \<noteq> Inr s'"
proof (induction ndebug osol s rule: batch_loop.induct)
  case (1 ndebug osol s)
  show ?case
  proof (cases "fill_streams 0 s")
    case (Inl e)
    with "1.prems" show ?thesis by (subst batch_loop.simps) simp
  next
    case (Inr s1)
    from fill_streams_not_done [OF Inr "1.prems"] have nd: "\<not> is_done s1" .
    show ?thesis
    proof (cases "\<not> ndebug \<and> \<not> lanes_ready s1")
      case True
      with Inr nd "1.prems" show ?thesis by (subst batch_loop.simps) simp
    next
      case False
      show ?thesis
      proof (cases "sha256_int osol (blks s1) (out s1) (hashs s1)")
        case (Inl e)
        with Inr nd False "1.prems" show ?thesis by (subst batch_loop.simps) auto
      next
        case hs: (Inr hs)
        have "\<not> is_done (advance (s1\<lparr>hashs := hs\<rparr>))" using nd by (simp add: advance_is_done)
        from "1.IH" [OF "1.prems" Inr nd False hs this]
        have "batch_loop ndebug osol (advance (s1\<lparr>hashs := hs\<rparr>)) \<noteq> Inr s'" .
        with Inr nd False hs "1.prems" show ?thesis by (subst batch_loop.simps) auto
      qed
    qed
  qed
qed

lemma refill_inv:
  assumes "batch_inv s"
  shows "\<exists>s1. refill n s = Inr (False, s1) \<and> batch_inv s1"
proof (cases "blks s n = None \<and> no s \<noteq> 0")
  case False
  with assms show ?thesis by (auto simp: refill_def)
next
  case True
  then have nz: "no s \<noteq> 0" by simp
  then have u: "unat (no s - 1) = unat (no s) - 1" and pos: "0 < unat (no s)"
    by (simp_all add: unat_minus_one unat_gt_0)
  from pos assms obtain d rest where dt: "data s = d # rest"
    by (cases "data s") (auto simp: batch_inv_def)
  from pos assms have hc: "hcur s < List.length (hashs s)"
    by (auto simp: batch_inv_def)
  let ?s1 = "s\<lparr>blks := (blks s)(n := Some d), out := (out s)(n := Some (hcur s)),
               lengths := (lengths s)(n := List.length d), data := rest,
               hcur := hcur s + 1, no := no s - 1\<rparr>"
  from True dt hc nz have "refill n s = Inr (False, ?s1)"
    by (simp add: refill_def Let_def)
  moreover from assms dt hc u pos have "batch_inv ?s1"
    by (auto simp: batch_inv_def)
  ultimately show ?thesis by blast
qed

lemma retire_inv: "batch_inv s \<Longrightarrow> batch_inv (retire n s)"
  by (auto simp: batch_inv_def retire_def Let_def split: option.splits)

lemma fill_streams_inv:
  "batch_inv s \<Longrightarrow> \<exists>s1. fill_streams n s = Inr s1 \<and> batch_inv s1"
proof (induction n s rule: fill_streams.induct)
  case (1 n s)
  show ?case
  proof (cases "n < 4")
    case False
    with "1.prems" show ?thesis by (simp add: fill_streams.simps)
  next
    case True
    from refill_inv [OF "1.prems", of n] obtain s2
      where r: "refill n s = Inr (False, s2)" and i2: "batch_inv s2" by blast
    from "1.IH" [OF True r refl _ retire_inv [OF i2]]
    obtain s1 where "fill_streams (n + 1) (retire n s2) = Inr s1" and "batch_inv s1" by auto
    with True r show ?thesis by (subst fill_streams.simps) simp
  qed
qed

lemma sha256_lanes_ok:
  "\<forall>n \<in> set ns. \<exists>p. bl n = Some p \<and> sizeof_block \<le> List.length p \<and>
      (\<exists>i < List.length hs. ou n = Some i) \<Longrightarrow>
   \<exists>hs'. sha256_lanes osol ns bl ou hs = Inr hs' \<and> List.length hs' = List.length hs"
proof (induction ns arbitrary: hs)
  case Nil
  then show ?case by simp
next
  case (Cons n ns)
  from Cons.prems obtain p i where b: "bl n = Some p" and o: "ou n = Some i"
    and i: "i < List.length hs" and l: "sizeof_block \<le> List.length p" by auto
  let ?hs = "hs[i := osol (take sizeof_block p) (hs ! i)]"
  from Cons.prems have "\<forall>n \<in> set ns. \<exists>p. bl n = Some p \<and> sizeof_block \<le> List.length p \<and>
      (\<exists>i < List.length ?hs. ou n = Some i)"
    by simp
  from Cons.IH [OF this] b o i l show ?case by simp
qed

lemma sha256_lanes_bad:
  "\<exists>n \<in> set ns. \<forall>p. bl n = Some p \<longrightarrow> List.length p < sizeof_block \<Longrightarrow>
   sha256_lanes osol ns bl ou hs = Inl OutOfBounds"
proof (induction ns arbitrary: hs)
  case Nil
  then show ?case by simp
next
  case (Cons n ns)
  show ?case
  proof (cases "\<forall>p. bl n = Some p \<longrightarrow> List.length p < sizeof_block")
    case True
    then show ?thesis by (auto split: option.splits)
  next
    case False
    with Cons.prems have "\<exists>n \<in> set ns. \<forall>p. bl n = Some p \<longrightarrow> List.length p < sizeof_block"
      by auto
    from Cons.IH [OF this] show ?thesis by (auto split: option.splits)
  qed
qed

lemma lanes_ready_iff:
  "lanes_ready s \<longleftrightarrow> (\<forall>n < 4. blks s n \<noteq> None \<and> sizeof_block \<le> lengths s n)"
  by (auto simp: lanes_ready_def list_all_iff)

lemma advance_inv:
  "batch_inv s \<Longrightarrow> List.length hs = List.length (hashs s) \<Longrightarrow> batch_inv (advance (s\<lparr>hashs := hs\<rparr>))"
  by (auto simp: batch_inv_def advance_def)

text \<open>
  With such arrays every round either compresses one block in each of the four lanes or
  comes to a lane without a block pointer; the weight of the state bounds the rounds,
  so it comes to such a lane in the end. Then the assertion fails, or without the
  assertion \<open>__sha256_int\<close> reads through a null pointer.
\<close>

lemma batch_loop_fails:
  "batch_inv s \<Longrightarrow>
   batch_loop ndebug osol s = Inl (if ndebug then OutOfBounds else AssertFailed)"
proof (induction ndebug osol s rule: batch_loop.induct)
  case (1 ndebug osol s)
  from "1.prems" have nd: "\<not> is_done s" by (simp add: batch_inv_def)
  from fill_streams_inv [OF "1.prems", of 0] obtain s1
    where f: "fill_streams 0 s = Inr s1" and i1: "batch_inv s1" by blast
  from i1 have nd1: "\<not> is_done s1" by (simp add: batch_inv_def)
  show ?case
  proof (cases "lanes_ready s1")
    case False
    show ?thesis
    proof (cases ndebug)
      case False
      with \<open>\<not> lanes_ready s1\<close> f nd nd1 show ?thesis by (subst batch_loop.simps) simp
    next
      case True
      from \<open>\<not> lanes_ready s1\<close> obtain n where n: "n < 4"
        and bad: "blks s1 n = None \<or> lengths s1 n < sizeof_block"
        by (auto simp: lanes_ready_iff)
      from bad i1 have "\<forall>p. blks s1 n = Some p \<longrightarrow> List.length p < sizeof_block"
        by (auto simp: batch_inv_def)
      moreover from n have "n = 0 \<or> n = 1 \<or> n = 2 \<or> n = 3" by arith
      then have "n \<in> set [0, 1, 2, 3]" by auto
      ultimately have "\<exists>n \<in> set [0, 1, 2, 3]. \<forall>p. blks s1 n = Some p \<longrightarrow> List.length p < sizeof_block"
        by (rule_tac x = n in bexI)
      from sha256_lanes_bad [OF this]
      have "sha256_int osol (blks s1) (out s1) (hashs s1) = Inl OutOfBounds"
        by (simp add: sha256_int_def)
      with True f nd nd1 show ?thesis by (subst batch_loop.simps) simp
    qed
  next
    case True
    have lane: "\<exists>p. blks s1 n = Some p \<and> sizeof_block \<le> List.length p \<and>
        (\<exists>i < List.length (hashs s1). out s1 n = Some i)" if "n < 4" for n
    proof -
      from True that obtain p where p: "blks s1 n = Some p" and l: "sizeof_block \<le> lengths s1 n"
        by (auto simp: lanes_ready_iff)
      from i1 p have "lengths s1 n = List.length p"
        and "\<exists>i < List.length (hashs s1). out s1 n = Some i"
        by (simp_all add: batch_inv_def)
      with p l show ?thesis by simp
    qed
    have "\<forall>n \<in> set [0, 1, 2, 3]. \<exists>p. blks s1 n = Some p \<and> sizeof_block \<le> List.length p \<and>
        (\<exists>i < List.length (hashs s1). out s1 n = Some i)"
      using lane [of 0] lane [of 1] lane [of 2] lane [of 3] by simp
    from sha256_lanes_ok [OF this, of osol] obtain hs
      where h: "sha256_int osol (blks s1) (out s1) (hashs s1) = Inr hs"
        and l: "List.length hs = List.length (hashs s1)"
      by (auto simp: sha256_int_def)
    from True have c: "\<not> (\<not> ndebug \<and> \<not> lanes_ready s1)" by simp
    from "1.IH" [OF nd f nd1 c h advance_inv [OF i1 l]]
    have "batch_loop ndebug osol (advance (s1\<lparr>hashs := hs\<rparr>)) =
          Inl (if ndebug then OutOfBounds else AssertFailed)" .
    with f nd nd1 True h show ?thesis by (subst batch_loop.simps) simp
  qed
qed

lemma BatchAddSHA256To_fails:
  "unat cnt \<le> List.length msgs \<Longrightarrow> unat cnt \<le> List.length hs \<Longrightarrow>
   BatchAddSHA256To ndebug osol cnt hs msgs = Inl (if ndebug then OutOfBounds else AssertFailed)"
  by (simp add: BatchAddSHA256To_def batch_loop_fails batch_inv_def)

text \<open>
  C1. The claim is that the batch of one message, and of four messages of any lengths,
  leaves in each destination the digest of the single-message path. The code does not:
  for every message \<open>b\<close> and for every four messages the call returns no digest,
  whatever the compression function and the destinations are. It ends in the failed
  assertion of lines 205 to 211, or, in a build with \<open>NDEBUG\<close>, in the read of
  \<open>__sha256_int\<close> through the null block pointer of a lane.
\<close>

theorem BatchAddSHA256To_one_and_four:
  "BatchAddSHA256To ndebug osol 1 [h] [b] = Inl (if ndebug then OutOfBounds else AssertFailed) \<and>
   BatchAddSHA256To ndebug osol 4 [h1, h2, h3, h4] [b1, b2, b3, b4] =
     Inl (if ndebug then OutOfBounds else AssertFailed)"
  by (simp add: BatchAddSHA256To_fails)

text \<open>
  C2. The claim is that the main loop stops once the input list is exhausted, and that
  the tails are then finished by the deferred path. The code does not: for every count,
  every list of destinations and every list of messages, in either build, the call ends
  in an error and never reaches the loop over \<open>tobefinished\<close>, because no pass over the
  lanes sets \<open>done\<close>.
\<close>

theorem BatchAddSHA256To_never_returns:
  "\<exists>err. BatchAddSHA256To ndebug osol cnt hs msgs = Inl err"
proof -
  let ?s = "\<lparr>blks = (\<lambda>n. None), lengths = (\<lambda>n. 0), out = (\<lambda>n. None), tobefinished = [],
             no = cnt, data = msgs, hcur = 0, hashs = hs, is_done = False\<rparr>"
  have "\<not> is_done ?s" by simp
  from batch_loop_no_return [OF this, of ndebug osol]
  obtain e where "batch_loop ndebug osol ?s = Inl e"
    by (cases "batch_loop ndebug osol ?s") auto
  then show ?thesis by (simp add: BatchAddSHA256To_def)
qed

section \<open>Filling with random words\<close>

lemma seven_mask: "(7 :: 64 word) = mask 3"
  by (simp add: mask_eq_exp_minus_1)

lemma and_not_7: "(w :: 64 word) AND NOT 7 = push_bit 3 (drop_bit 3 w)"
  unfolding seven_mask
  by (rule bit_word_eqI) (auto simp: bit_simps)

lemma unat_and_not_7: "unat ((w :: 64 word) AND NOT 7) = 8 * (unat w div 8)"
proof -
  have a: "unat (drop_bit 3 w) = unat w div 8"
    by (simp add: drop_bit_eq_div unat_div)
  have "unat w < 2 ^ 64" using unsigned_less [of w] by simp
  then have b: "8 * (unat w div 8) < 2 ^ 64" by simp
  have "unat (push_bit 3 (drop_bit 3 w)) = (unat (drop_bit 3 w) * 8) mod 2 ^ 64"
    by (simp add: push_bit_eq_mult unat_word_ariths)
  with a b have "unat (push_bit 3 (drop_bit 3 w)) = 8 * (unat w div 8)"
    by (simp add: mult.commute)
  then show ?thesis by (simp only: and_not_7)
qed

lemma unat_thislength:
  "unat (((w :: size_t) div 1) AND NOT (sizeof_result - 1)) = 8 * (unat w div 8)"
proof -
  have "(sizeof_result - 1 :: size_t) = 7" by (simp add: sizeof_result_def)
  then show ?thesis by (simp only: unat_and_not_7 div_by_1)
qed


declare fill_words.simps [simp del] fill_remaining.simps [simp del]

lemma length_le_bytes: "List.length (le_bytes k v) = k"
  by (induction k arbitrary: v) simp_all

lemma length_store_word: "List.length (store_word e k w) = k"
  by (cases e) (simp_all add: store_word_def length_le_bytes)

lemma poke_in_range:
  "off + List.length bs \<le> List.length buf \<Longrightarrow>
   poke buf off bs = Inr (take off buf @ bs @ drop (off + List.length bs) buf)"
  by (simp add: poke_def)

lemma fill_words_run:
  "n \<le> thisno \<Longrightarrow> tofill + 8 * (thisno - n) \<le> List.length buf \<Longrightarrow>
   \<exists>g'. fill_words e gen n thisno buf tofill g =
     Inr (take tofill buf @ concat (map (store_word e 8) (outputs gen g (thisno - n)))
            @ drop (tofill + 8 * (thisno - n)) buf,
          tofill + 8 * (thisno - n), g')"
proof (induction e gen n thisno buf tofill g rule: fill_words.induct)
  case (1 e gen n thisno buf tofill g)
  show ?case
  proof (cases "n < thisno")
    case False
    with "1.prems" show ?thesis by (subst fill_words.simps) simp
  next
    case True
    obtain w g1 where gg: "gen g = (w, g1)" by (cases "gen g")
    let ?bs = "store_word e 8 w :: byte list"
    have lb: "List.length ?bs = 8" by (simp add: length_store_word)
    from True "1.prems" have fits: "tofill + List.length ?bs \<le> List.length buf"
      by (simp add: lb)
    define buf1 where "buf1 = take tofill buf @ ?bs @ drop (tofill + 8) buf"
    have sz: "unat sizeof_result = 8" by (simp add: sizeof_result_def)
    have pk: "poke buf tofill (store_word e (unat sizeof_result) w) = Inr buf1"
      using poke_in_range [OF fits] by (simp add: sz lb buf1_def)
    have l1: "List.length buf1 = List.length buf" using fits by (simp add: lb buf1_def)
    from True obtain m where m: "thisno - n = Suc m" by (cases "thisno - n") auto
    then have m': "thisno - (n + 1) = m" by simp
    from True "1.prems" have le: "n + 1 \<le> thisno"
      and sp: "tofill + unat sizeof_result + 8 * (thisno - (n + 1)) \<le> List.length buf1"
      by (simp_all add: sz l1)
    from "1.IH" [OF True gg [symmetric] pk le sp] obtain g' where
      ih: "fill_words e gen (n + 1) thisno buf1 (tofill + unat sizeof_result) g1 =
        Inr (take (tofill + unat sizeof_result) buf1
               @ concat (map (store_word e 8) (outputs gen g1 (thisno - (n + 1))))
               @ drop (tofill + unat sizeof_result + 8 * (thisno - (n + 1))) buf1,
             tofill + unat sizeof_result + 8 * (thisno - (n + 1)), g')" by blast
    from fits have tl: "tofill \<le> List.length buf" by simp
    have tk: "take (tofill + 8) buf1 = take tofill buf @ ?bs"
      using tl by (simp add: lb buf1_def)
    have dr: "drop (tofill + 8 + 8 * m) buf1 = drop (tofill + 8 * Suc m) buf"
      using tl fits by (simp add: lb min_absorb2 ac_simps buf1_def)
    have step: "fill_words e gen n thisno buf tofill g =
                fill_words e gen (n + 1) thisno buf1 (tofill + unat sizeof_result) g1"
      by (subst fill_words.simps) (simp add: True gg pk)
    have ou: "outputs gen g (Suc m) = w # outputs gen g1 m" by (simp add: gg)
    have "fill_words e gen n thisno buf tofill g =
          Inr ((take tofill buf @ ?bs) @ concat (map (store_word e 8) (outputs gen g1 m))
                 @ drop (tofill + 8 * Suc m) buf, tofill + 8 + 8 * m, g')"
      unfolding step using ih unfolding sz m' tk dr .
    then show ?thesis unfolding m ou by auto
  qed
qed


lemma fill_words_no_abort: "fill_words e gen n thisno buf tofill g \<noteq> Inl Abort"
proof (induction e gen n thisno buf tofill g rule: fill_words.induct)
  case (1 e gen n thisno buf tofill g)
  show ?case
    apply (subst fill_words.simps)
    using "1.IH"
    apply (auto simp: poke_def split: prod.splits sum.splits if_splits)
    done
qed

lemma fill_remaining_no_abort: "fill_remaining e gen remaining buf tofill g \<noteq> Inl Abort"
proof (induction e gen remaining buf tofill g rule: fill_remaining.induct)
  case (1 e gen remaining buf tofill g)
  show ?case
    apply (subst fill_remaining.simps)
    using "1.IH"
    apply (auto simp: poke_def split: prod.splits sum.splits if_splits)
    done
qed

lemma FillRandom_no_abort: "FillRandom e gen g buf len \<noteq> Inl Abort"
  by (auto simp: FillRandom_def Let_def fill_words_no_abort fill_remaining_no_abort
           split: sum.splits prod.splits)

lemma FillRandom_whole_words:
  assumes len: "List.length buf = unat len" and dv: "8 dvd unat len"
  shows "FillRandom e gen g buf len =
         Inr (concat (map (store_word e 8) (outputs gen g (unat len div 8))))"
proof -
  let ?tl = "(len div 1) AND NOT (sizeof_result - 1)"
  from dv have "unat ?tl = unat len" by (simp only: unat_thislength) simp
  then have tl: "?tl = len" by (simp only: word_unat_eq_iff)
  have no: "unat (len div sizeof_result) = unat len div 8"
    by (simp add: sizeof_result_def unat_div)
  let ?k = "unat len div 8"
  from dv len have full: "0 + 8 * (?k - 0) \<le> List.length buf" and k8: "8 * ?k = List.length buf"
    by simp_all
  from fill_words_run [OF _ full, of e gen g] obtain g' where
    fw: "fill_words e gen 0 ?k buf 0 g =
         Inr (concat (map (store_word e 8) (outputs gen g ?k)), 8 * ?k, g')"
    by (auto simp: k8)
  have fr: "fill_remaining e gen 0 b t g' = Inr (b, t, g')" for b t
    by (subst fill_remaining.simps) simp
  show ?thesis
    unfolding FillRandom_def Let_def tl no
    by (simp add: fw fr)
qed

lemma overflow_check_Int256:
  "((cnt :: size_t) \<noteq> 0 \<and> cnt \<noteq> (cnt * sizeof_Int256) div sizeof_Int256) \<longleftrightarrow> 2 ^ 59 \<le> unat cnt"
proof (cases "unat cnt < 2 ^ 59")
  case True
  then have "unat (cnt * 32) = unat cnt * 32"
    by (simp add: unat_word_ariths)
  then have "unat ((cnt * 32) div 32) = unat cnt"
    by (simp add: unat_div)
  then have "(cnt * 32) div 32 = cnt" by (simp only: word_unat_eq_iff)
  with True show ?thesis by (simp add: sizeof_Int256_def)
next
  case False
  have "unat (cnt * 32) < 2 ^ 64" using unsigned_less [of "cnt * 32"] by simp
  then have "unat ((cnt * 32) div 32) < 2 ^ 59" by (simp add: unat_div)
  with False have "(cnt * 32) div 32 \<noteq> cnt" by auto
  moreover from False have "cnt \<noteq> 0" by auto
  ultimately show ?thesis using False by (simp add: sizeof_Int256_def)
qed

lemma overflow_check_Int128:
  "((cnt :: size_t) \<noteq> 0 \<and> cnt \<noteq> (cnt * sizeof_Int128) div sizeof_Int128) \<longleftrightarrow> 2 ^ 60 \<le> unat cnt"
proof (cases "unat cnt < 2 ^ 60")
  case True
  then have "unat (cnt * 16) = unat cnt * 16"
    by (simp add: unat_word_ariths)
  then have "unat ((cnt * 16) div 16) = unat cnt"
    by (simp add: unat_div)
  then have "(cnt * 16) div 16 = cnt" by (simp only: word_unat_eq_iff)
  with True show ?thesis by (simp add: sizeof_Int128_def)
next
  case False
  have "unat (cnt * 16) < 2 ^ 64" using unsigned_less [of "cnt * 16"] by simp
  then have "unat ((cnt * 16) div 16) < 2 ^ 60" by (simp add: unat_div)
  with False have "(cnt * 16) div 16 \<noteq> cnt" by auto
  moreover from False have "cnt \<noteq> 0" by auto
  ultimately show ?thesis using False by (simp add: sizeof_Int128_def)
qed

lemma Int256_FillQualityRandom_eq:
  "Int256_FillQualityRandom e mt g ints cnt =
     (if 2 ^ 59 \<le> unat cnt then Inl Abort else FillRandom e mt g ints (cnt * 32))"
  using overflow_check_Int256 [of cnt]
  by (simp add: Int256_FillQualityRandom_def Let_def sizeof_Int256_def)

lemma Int128_FillQualityRandom_eq:
  "Int128_FillQualityRandom e mt g ints cnt =
     (if 2 ^ 60 \<le> unat cnt then Inl Abort else FillRandom e mt g ints (cnt * 16))"
  using overflow_check_Int128 [of cnt]
  by (simp add: Int128_FillQualityRandom_def Let_def sizeof_Int128_def)

text \<open>
  The loop for a trailing partial word, lines 54 to 60, is outside what the two callers
  reach: they pass \<open>no * 16\<close> or \<open>no * 32\<close> bytes, always whole words. Handed 3 bytes it
  would write a whole 8-byte word at them, past the end of the buffer.
\<close>

lemma FillRandom_remainder_out_of_bounds:
  "FillRandom LittleEndian counter 0 [0, 0, 0] 3 = Inl OutOfBounds"
  by (simp add: FillRandom_def sizeof_result_def fill_words.simps fill_remaining.simps
                counter_def poke_def length_store_word)

text \<open>
  C8 fails on the guard of lines 82 and 109, \<open>if(no && no!=length/sizeof(*ints)) abort();\<close>.
  Asked for \<open>2^59\<close> elements of 32 bytes, \<open>FillQualityRandom\<close> aborts, although the array
  handed over is a whole number of 8-byte words and so is the byte count \<open>no * 32\<close> that
  the code computes: the abort is not one for a size that is no multiple of the word size.
\<close>

theorem FillQualityRandom_aborts_on_whole_words:
  "Int256_FillQualityRandom LittleEndian counter 0 (replicate 32 0) (2 ^ 59) = Inl Abort \<and>
   List.length (replicate 32 (0 :: byte)) mod unat sizeof_result = 0 \<and>
   unat ((2 ^ 59 :: size_t) * sizeof_Int256) mod unat sizeof_result = 0"
  by (simp add: Int256_FillQualityRandom_def sizeof_Int256_def sizeof_result_def)

text \<open>
  C8, as the code has it. \<open>FillQualityRandom\<close> aborts exactly when the element count is
  so large that \<open>no * sizeof(*ints)\<close> does not fit a \<open>size_t\<close>: from \<open>2^59\<close> elements of
  32 bytes on and from \<open>2^60\<close> elements of 16 bytes on, and for no other reason.
  Otherwise, for an array of \<open>no\<close> elements, the whole storage is overwritten by
  consecutive outputs of the generator, each written as one native 8-byte word: four
  words for each \<open>Int256\<close> and two for each \<open>Int128\<close>.
\<close>

theorem FillQualityRandom_aborts_or_fills:
  "(Int256_FillQualityRandom e mt g ints256 big = Inl Abort \<longleftrightarrow> 2 ^ 59 \<le> unat big) \<and>
   (Int128_FillQualityRandom e mt g ints128 big = Inl Abort \<longleftrightarrow> 2 ^ 60 \<le> unat big) \<and>
   (unat cnt < 2 ^ 59 \<longrightarrow> List.length ints256 = 32 * unat cnt \<longrightarrow>
      Int256_FillQualityRandom e mt g ints256 cnt =
        Inr (concat (map (store_word e 8) (outputs mt g (4 * unat cnt))))) \<and>
   (unat cnt < 2 ^ 60 \<longrightarrow> List.length ints128 = 16 * unat cnt \<longrightarrow>
      Int128_FillQualityRandom e mt g ints128 cnt =
        Inr (concat (map (store_word e 8) (outputs mt g (2 * unat cnt)))))"
proof (intro conjI impI)
  show "Int256_FillQualityRandom e mt g ints256 big = Inl Abort \<longleftrightarrow> 2 ^ 59 \<le> unat big"
    by (simp add: Int256_FillQualityRandom_eq FillRandom_no_abort)
  show "Int128_FillQualityRandom e mt g ints128 big = Inl Abort \<longleftrightarrow> 2 ^ 60 \<le> unat big"
    by (simp add: Int128_FillQualityRandom_eq FillRandom_no_abort)
next
  assume c: "unat cnt < 2 ^ 59" and l: "List.length ints256 = 32 * unat cnt"
  from c have u: "unat (cnt * 32) = 32 * unat cnt" by (simp add: unat_word_ariths)
  with l have "List.length ints256 = unat (cnt * 32)" and "8 dvd unat (cnt * 32)" by simp_all
  from FillRandom_whole_words [OF this, of e mt g] c u
  show "Int256_FillQualityRandom e mt g ints256 cnt =
        Inr (concat (map (store_word e 8) (outputs mt g (4 * unat cnt))))"
    by (simp add: Int256_FillQualityRandom_eq)
next
  assume c: "unat cnt < 2 ^ 60" and l: "List.length ints128 = 16 * unat cnt"
  from c have u: "unat (cnt * 16) = 16 * unat cnt" by (simp add: unat_word_ariths)
  with l have "List.length ints128 = unat (cnt * 16)" and "8 dvd unat (cnt * 16)" by simp_all
  from FillRandom_whole_words [OF this, of e mt g] c u
  show "Int128_FillQualityRandom e mt g ints128 cnt =
        Inr (concat (map (store_word e 8) (outputs mt g (2 * unat cnt))))"
    by (simp add: Int128_FillQualityRandom_eq)
qed

text \<open>
  The statement above on a big-endian host with the counting generator started at 5:
  a count of \<open>2^60\<close> aborts for both types, and one \<open>Int256\<close> and one \<open>Int128\<close> are
  filled with the words 5, 6, 7, 8 and 5, 6.
\<close>

theorem FillQualityRandom_aborts_or_fills_witness:
  "unat (1 :: size_t) < 2 ^ 59 \<and> List.length (replicate 32 (0 :: byte)) = 32 * unat (1 :: size_t) \<and>
   unat (1 :: size_t) < 2 ^ 60 \<and> List.length (replicate 16 (0 :: byte)) = 16 * unat (1 :: size_t) \<and>
   Int256_FillQualityRandom BigEndian counter 5 (replicate 32 0) (2 ^ 60) = Inl Abort \<and>
   Int128_FillQualityRandom BigEndian counter 5 (replicate 16 0) (2 ^ 60) = Inl Abort \<and>
   Int256_FillQualityRandom BigEndian counter 5 (replicate 32 0) 1 =
     Inr [0, 0, 0, 0, 0, 0, 0, 5, 0, 0, 0, 0, 0, 0, 0, 6,
          0, 0, 0, 0, 0, 0, 0, 7, 0, 0, 0, 0, 0, 0, 0, 8] \<and>
   Int128_FillQualityRandom BigEndian counter 5 (replicate 16 0) 1 =
     Inr [0, 0, 0, 0, 0, 0, 0, 5, 0, 0, 0, 0, 0, 0, 0, 6]"
proof -
  have e4: "concat (map (store_word BigEndian 8) (outputs counter 5 4)) =
      [0, 0, 0, 0, 0, 0, 0, 5, 0, 0, 0, 0, 0, 0, 0, 6,
       0, 0, 0, 0, 0, 0, 0, 7, 0, 0, 0, 0, 0, 0, 0, 8]"
    by code_simp
  have e2: "concat (map (store_word BigEndian 8) (outputs counter 5 2)) =
      [0, 0, 0, 0, 0, 0, 0, 5, 0, 0, 0, 0, 0, 0, 0, 6]"
    by code_simp
  have b: "unat (2 ^ 60 :: size_t) = 2 ^ 60" by simp
  from FillQualityRandom_aborts_or_fills [of BigEndian counter 5 "replicate 32 0" "2 ^ 60"
                                             "replicate 16 0" 1]
  show ?thesis by (simp add: e4 e2 b)
qed

text \<open>
  C10. For every array and count, and whatever generator stands behind the statements
  after \<open>return\<close>, \<open>FillFastRandom\<close> gives what \<open>FillQualityRandom\<close> gives on the same
  arguments, for the 128-bit and for the 256-bit type: the result does not depend on
  \<open>ranlux\<close> and its state, so that path is never taken.
\<close>

theorem FillFastRandom_is_FillQualityRandom:
  "Int128_FillFastRandom e mt g ranlux r ints cnt = Int128_FillQualityRandom e mt g ints cnt \<and>
   Int256_FillFastRandom e mt g ranlux r ints cnt = Int256_FillQualityRandom e mt g ints cnt"
  by (simp add: Int128_FillFastRandom_def Int256_FillFastRandom_def return_here_def
           split: sum.splits)

section \<open>Order of the fixed-width values\<close>

lemma be_value_foldl:
  "foldl (\<lambda>v b. 256 * v + unat b) a (bs :: byte list) = a * 256 ^ List.length bs + be_value bs"
  unfolding be_value_def
proof (induction bs arbitrary: a)
  case Nil
  show ?case by simp
next
  case (Cons b bs)
  let ?f = "\<lambda>v (b :: byte). 256 * v + unat b"
  have "foldl ?f a (b # bs) = (256 * a + unat b) * 256 ^ List.length bs + foldl ?f 0 bs"
    by (simp only: foldl_Cons Cons.IH [of "256 * a + unat b"])
  moreover have "foldl ?f 0 (b # bs) = unat b * 256 ^ List.length bs + foldl ?f 0 bs"
    using Cons.IH [of "unat b"] by simp
  ultimately show ?case by (simp add: algebra_simps)
qed

lemma be_value_Cons: "be_value (b # bs) = unat b * 256 ^ List.length bs + be_value bs"
  using be_value_foldl [of "unat b" bs] by (simp add: be_value_def)

lemma be_value_bound: "be_value bs < 256 ^ List.length bs"
proof (induction bs)
  case Nil
  show ?case by (simp add: be_value_def)
next
  case (Cons b bs)
  let ?P = "(256 :: nat) ^ List.length bs"
  have "unat b < 256" using unsigned_less [of b] by simp
  then have "unat b + 1 \<le> 256" by simp
  then have le: "(unat b + 1) * ?P \<le> 256 * ?P"
    by (rule mult_le_mono1)
  have "unat b * ?P + be_value bs < unat b * ?P + ?P" using Cons.IH by simp
  also have "\<dots> = (unat b + 1) * ?P" by (simp add: algebra_simps)
  also note le
  finally show ?case by (simp add: be_value_Cons)
qed

lemma be_value_head_less:
  assumes "List.length xs = List.length ys" and "(x :: byte) < y"
  shows "be_value (x # xs) < be_value (y # ys)"
proof -
  let ?P = "(256 :: nat) ^ List.length xs"
  from assms(2) have "unat x + 1 \<le> unat y" by (simp add: word_less_nat_alt)
  then have le: "(unat x + 1) * ?P \<le> unat y * ?P"
    by (rule mult_le_mono1)
  have "be_value xs < ?P" by (rule be_value_bound)
  then have "unat x * ?P + be_value xs < unat x * ?P + ?P" by simp
  also have "\<dots> = (unat x + 1) * ?P" by (simp add: algebra_simps)
  also note le
  also have "unat y * ?P \<le> unat y * ?P + be_value ys" by simp
  finally show ?thesis using assms(1) by (simp add: be_value_Cons)
qed

lemma memcmp_order:
  "List.length x = n \<Longrightarrow> List.length y = n \<Longrightarrow>
   \<exists>r. memcmp x y n = Inr r \<and> (r < 0 \<longleftrightarrow> be_value x < be_value y) \<and>
       (0 < r \<longleftrightarrow> be_value y < be_value x) \<and> (r = 0 \<longleftrightarrow> x = y)"
proof (induction x y n rule: memcmp.induct)
  case (1 xs ys)
  then show ?case by simp
next
  case (2 x xs y ys n)
  show ?case
  proof (cases "x = y")
    case True
    from "2.prems" have "List.length xs = n" "List.length ys = n" by simp_all
    from "2.IH" [OF True this] True "2.prems" show ?thesis
      by (auto simp: be_value_Cons)
  next
    case False
    from "2.prems" have l: "List.length xs = List.length ys" by simp
    show ?thesis
    proof (cases "x < y")
      case True
      from be_value_head_less [OF l True] False True show ?thesis by auto
    next
      case ge: False
      with False have "y < x" by auto
      from be_value_head_less [OF l [symmetric] this] False ge show ?thesis by auto
    qed
  qed
qed simp_all

text \<open>
  C6. For every pair of values of the same width (16 bytes for \<open>Int128\<close>, 32 bytes for
  \<open>Int256\<close>, or any other), exactly one of \<open>x < y\<close>, \<open>x == y\<close> and \<open>x > y\<close> holds, and the
  numeric comparison agrees with \<open>memcmp\<close> on the stored bytes: \<open>x > y\<close> exactly when
  \<open>memcmp\<close> is positive, \<open>x < y\<close> exactly when it is negative, \<open>x == y\<close> exactly when it
  is zero.
\<close>

theorem Int_order_agrees_with_memcmp:
  assumes "List.length x = n" and "List.length y = n"
  shows "((Int_less x y \<and> \<not> Int_equal x y \<and> \<not> Int_greater x y) \<or>
          (\<not> Int_less x y \<and> Int_equal x y \<and> \<not> Int_greater x y) \<or>
          (\<not> Int_less x y \<and> \<not> Int_equal x y \<and> Int_greater x y)) \<and>
         (\<exists>r. memcmp x y n = Inr r \<and> (Int_greater x y \<longleftrightarrow> 0 < r) \<and>
              (Int_less x y \<longleftrightarrow> r < 0) \<and> (Int_equal x y \<longleftrightarrow> r = 0))"
proof -
  from memcmp_order [OF assms] obtain r where r: "memcmp x y n = Inr r"
    and lt: "r < 0 \<longleftrightarrow> be_value x < be_value y"
    and gt: "0 < r \<longleftrightarrow> be_value y < be_value x"
    and eq: "r = 0 \<longleftrightarrow> x = y" by blast
  have "r < 0 \<or> r = 0 \<or> 0 < r" by arith
  with r lt gt eq show ?thesis
    unfolding Int_less_def Int_greater_def Int_equal_def by auto
qed

text \<open>The two values of the test \<open>Int128/works\<close>: byte 5 is 78 in one, byte 15 is 1 in the other.\<close>

theorem Int_order_agrees_with_memcmp_witness:
  "List.length ((replicate 16 0)[5 := 78 :: byte]) = 16 \<and>
   List.length ((replicate 16 0)[15 := 1 :: byte]) = 16 \<and>
   Int_greater ((replicate 16 0)[5 := 78]) ((replicate 16 0)[15 := 1]) \<and>
   memcmp ((replicate 16 0)[5 := 78]) ((replicate 16 0)[15 := 1]) 16 = Inr 1"
proof -
  have m: "memcmp ((replicate 16 0)[5 := 78]) ((replicate 16 0)[15 := 1]) 16 = Inr 1"
    by code_simp
  from Int_order_agrees_with_memcmp [of "(replicate 16 0)[5 := 78]" 16 "(replicate 16 0)[15 := 1]"] m
  show ?thesis by simp
qed

section \<open>The fast hashes\<close>

lemma le_value_le_bytes: "le_value (le_bytes k v) = v mod 256 ^ k"
proof (induction k arbitrary: v)
  case 0
  show ?case by simp
next
  case (Suc k)
  have "unat (of_nat (v mod 256) :: byte) = v mod 256"
    by (simp add: unat_of_nat)
  then show ?case
    by (simp add: Suc.IH mod_mult2_eq)
qed

lemma load_store_64: "load_word e (store_word e 8 w) = (w :: 64 word)"
proof -
  have "unat w < 2 ^ 64" using unsigned_less [of w] by simp
  then have "unat w mod 256 ^ 8 = unat w" by simp
  then have "le_value (le_bytes 8 (unat w)) = unat w"
    by (simp only: le_value_le_bytes)
  then show ?thesis
    by (cases e) (simp_all add: load_word_def store_word_def)
qed

lemma set_LongLong_0_1:
  "List.length h = 16 \<Longrightarrow>
   set_LongLong e (set_LongLong e h 0 a) 1 b = store_word e 8 a @ store_word e 8 b"
  by (simp add: set_LongLong_def length_store_word)

lemma asLongLongs_pair:
  "asLongLongs e (store_word e 8 a @ store_word e 8 b @ rest) 0 = a"
  "asLongLongs e (store_word e 8 a @ store_word e 8 b @ rest) 1 = b"
  by (simp_all add: asLongLongs_def length_store_word load_store_64)

lemma Hash128_AddFastHashTo_eq:
  assumes "List.length h = 16"
  shows "Hash128_AddFastHashTo e spooky d h =
         (case spooky d (asLongLongs e h 0, asLongLongs e h 1) of
            (a, b) \<Rightarrow> store_word e 8 a @ store_word e 8 b)"
  by (cases "spooky d (asLongLongs e h 0, asLongLongs e h 1)")
     (simp only: Hash128_AddFastHashTo_def prod.case set_LongLong_0_1 [OF assms])

lemma Hash128_AddFastHashTo_seeds:
  assumes "List.length h = 16"
  shows "(asLongLongs e (Hash128_AddFastHashTo e spooky d h) 0,
          asLongLongs e (Hash128_AddFastHashTo e spooky d h) 1) =
         spooky d (asLongLongs e h 0, asLongLongs e h 1)"
  using asLongLongs_pair [of e _ _ "[]"]
  by (simp add: Hash128_AddFastHashTo_eq [OF assms] split: prod.splits)

lemma length_Hash128_AddFastHashTo:
  "List.length h = 16 \<Longrightarrow> List.length (Hash128_AddFastHashTo e spooky d h) = 16"
  by (simp add: Hash128_AddFastHashTo_eq length_store_word split: prod.splits)

lemma store_pair_inj:
  "store_word e 8 (a :: 64 word) @ store_word e 8 (b :: 64 word) =
   store_word e 8 a' @ store_word e 8 b' \<longleftrightarrow> a = a' \<and> b = b'"
proof
  assume eq: "store_word e 8 a @ store_word e 8 b = store_word e 8 a' @ store_word e 8 b'"
  then have "store_word e 8 a = store_word e 8 a'" and "store_word e 8 b = store_word e 8 b'"
    by (simp_all add: length_store_word)
  then have "load_word e (store_word e 8 a) = (load_word e (store_word e 8 a') :: 64 word)"
    and "load_word e (store_word e 8 b) = (load_word e (store_word e 8 b') :: 64 word)"
    by simp_all
  then show "a = a' \<and> b = b'" by (simp only: load_store_64)
qed simp

lemma Hash256_AddFastHashTo_eq:
  assumes "List.length k = 32"
  shows "Hash256_AddFastHashTo e spooky city d k =
         (case spooky d (asLongLongs e k 0, asLongLongs e k 1) of (a, b) \<Rightarrow>
          case city d (asLongLongs e k 2, asLongLongs e k 3) of (c, f) \<Rightarrow>
            store_word e 8 a @ store_word e 8 b @ store_word e 8 c @ store_word e 8 f)"
  using assms
  by (simp add: Hash256_AddFastHashTo_def fast_round_def set_LongLong_def length_store_word
           split: prod.splits)

text \<open>
  C9. \<open>AddFastHashTo\<close> accumulates: for every message and every destination (16 bytes
  of a \<open>Hash128\<close>, 32 bytes of a \<open>Hash256\<close>) the value left in the destination is the
  output of the hash functions seeded with the destination's contents before the call,
  the two 64-bit words of a \<open>Hash128\<close> for SpookyHash, and for a \<open>Hash256\<close> words 0 and 1
  for SpookyHash and words 2 and 3 for CityHash. A second call over the same bytes
  hashes with the first call's output as seed, and it leaves the value of a single
  call exactly when the hash function maps that output, as seed, to itself.
\<close>

theorem AddFastHashTo_accumulates:
  assumes "List.length h = 16" and "List.length k = 32"
  shows "Hash128_AddFastHashTo e spooky d h =
           (case spooky d (asLongLongs e h 0, asLongLongs e h 1) of
              (a, b) \<Rightarrow> store_word e 8 a @ store_word e 8 b) \<and>
         Hash256_AddFastHashTo e spooky city d k =
           (case spooky d (asLongLongs e k 0, asLongLongs e k 1) of (a, b) \<Rightarrow>
            case city d (asLongLongs e k 2, asLongLongs e k 3) of (c, f) \<Rightarrow>
              store_word e 8 a @ store_word e 8 b @ store_word e 8 c @ store_word e 8 f) \<and>
         (asLongLongs e (Hash128_AddFastHashTo e spooky d (Hash128_AddFastHashTo e spooky d h)) 0,
          asLongLongs e (Hash128_AddFastHashTo e spooky d (Hash128_AddFastHashTo e spooky d h)) 1) =
           spooky d (spooky d (asLongLongs e h 0, asLongLongs e h 1)) \<and>
         (Hash128_AddFastHashTo e spooky d (Hash128_AddFastHashTo e spooky d h) =
            Hash128_AddFastHashTo e spooky d h \<longleftrightarrow>
          spooky d (spooky d (asLongLongs e h 0, asLongLongs e h 1)) =
            spooky d (asLongLongs e h 0, asLongLongs e h 1))"
proof (intro conjI)
  let ?h1 = "Hash128_AddFastHashTo e spooky d h"
  let ?s = "(asLongLongs e h 0, asLongLongs e h 1)"
  have l1: "List.length ?h1 = 16" by (rule length_Hash128_AddFastHashTo [OF assms(1)])
  have s1: "(asLongLongs e ?h1 0, asLongLongs e ?h1 1) = spooky d ?s"
    by (rule Hash128_AddFastHashTo_seeds [OF assms(1)])
  show "Hash128_AddFastHashTo e spooky d h =
        (case spooky d ?s of (a, b) \<Rightarrow> store_word e 8 a @ store_word e 8 b)"
    by (rule Hash128_AddFastHashTo_eq [OF assms(1)])
  show "Hash256_AddFastHashTo e spooky city d k =
           (case spooky d (asLongLongs e k 0, asLongLongs e k 1) of (a, b) \<Rightarrow>
            case city d (asLongLongs e k 2, asLongLongs e k 3) of (c, f) \<Rightarrow>
              store_word e 8 a @ store_word e 8 b @ store_word e 8 c @ store_word e 8 f)"
    by (rule Hash256_AddFastHashTo_eq [OF assms(2)])
  show s2: "(asLongLongs e (Hash128_AddFastHashTo e spooky d ?h1) 0,
         asLongLongs e (Hash128_AddFastHashTo e spooky d ?h1) 1) = spooky d (spooky d ?s)"
    using Hash128_AddFastHashTo_seeds [OF l1, of e spooky d] by (simp only: s1)
  obtain a b where ab: "spooky d ?s = (a, b)" by (cases "spooky d ?s")
  obtain a' b' where ab': "spooky d (a, b) = (a', b')" by (cases "spooky d (a, b)")
  have one: "?h1 = store_word e 8 a @ store_word e 8 b"
    using Hash128_AddFastHashTo_eq [OF assms(1), of e spooky d] by (simp only: ab prod.case)
  have "Hash128_AddFastHashTo e spooky d ?h1 =
        (case spooky d (asLongLongs e ?h1 0, asLongLongs e ?h1 1) of
           (a, b) \<Rightarrow> store_word e 8 a @ store_word e 8 b)"
    by (rule Hash128_AddFastHashTo_eq [OF l1])
  then have two: "Hash128_AddFastHashTo e spooky d ?h1 = store_word e 8 a' @ store_word e 8 b'"
    by (simp only: s1 ab ab' prod.case)
  show "Hash128_AddFastHashTo e spooky d ?h1 = ?h1 \<longleftrightarrow> spooky d (spooky d ?s) = spooky d ?s"
    unfolding two unfolding one ab ab' by (simp add: store_pair_inj)
qed

text \<open>
  The statement above at a fresh, all-zero \<open>Hash128\<close> and the 3 bytes \<open>1, 2, 3\<close>, with a
  function in the place of SpookyHash that adds the length of the message to the
  first seed and one to the second: the second call leaves another value than the
  first.
\<close>

theorem AddFastHashTo_accumulates_witness:
  "List.length (replicate 16 (0 :: byte)) = 16 \<and> List.length (replicate 32 (0 :: byte)) = 32 \<and>
   Hash128_AddFastHashTo LittleEndian (\<lambda>d (a, b). (a + of_nat (List.length d), b + 1)) [1, 2, 3]
     (Hash128_AddFastHashTo LittleEndian (\<lambda>d (a, b). (a + of_nat (List.length d), b + 1)) [1, 2, 3]
        (replicate 16 0)) \<noteq>
   Hash128_AddFastHashTo LittleEndian (\<lambda>d (a, b). (a + of_nat (List.length d), b + 1)) [1, 2, 3]
     (replicate 16 0)"
proof -
  let ?sp = "\<lambda>(d :: byte list) (a :: 64 word, b :: 64 word). (a + of_nat (List.length d), b + 1)"
  have l16: "List.length (replicate 16 (0 :: byte)) = 16"
    and l32: "List.length (replicate 32 (0 :: byte)) = 32" by simp_all
  have z0: "asLongLongs LittleEndian (replicate 16 0) 0 = 0" by code_simp
  have z1: "asLongLongs LittleEndian (replicate 16 0) 1 = 0" by code_simp
  note th = AddFastHashTo_accumulates [OF l16 l32, of LittleEndian ?sp "[1, 2, 3]" ?sp]
  from th have
    "Hash128_AddFastHashTo LittleEndian ?sp [1, 2, 3]
       (Hash128_AddFastHashTo LittleEndian ?sp [1, 2, 3] (replicate 16 0)) =
     Hash128_AddFastHashTo LittleEndian ?sp [1, 2, 3] (replicate 16 0) \<longleftrightarrow>
     ?sp [1, 2, 3] (?sp [1, 2, 3] (0, 0)) = ?sp [1, 2, 3] (0, 0)"
    unfolding z0 z1 by (elim conjE)
  then show ?thesis using l16 l32 by simp
qed

section \<open>The known answers of the test SHA256/works\<close>

lemma le_bytes_numeral:
  "le_bytes (numeral k) v = of_nat (v mod 256) # le_bytes (pred_numeral k) (v div 256)"
  by (simp only: numeral_eq_Suc [of k] le_bytes.simps)

lemma length_fox: "List.length quick_brown_fox = 43"
  by (simp add: quick_brown_fox_def bytes_of_def)

lemma AddSHA256To_short:
  assumes "0 < List.length msg" and "List.length msg < 64"
  shows "AddSHA256To osol msg h = osol (msg @ replicate (64 - List.length msg) 0) h"
proof -
  from assms have ne: "msg \<noteq> []" by auto
  from assms have "blocks_of msg = [msg]"
    by (simp add: blocks_of_step [OF ne] blocks_of_Nil)
  then show ?thesis
    by (simp add: AddSHA256To_refines hashOne_spec_def zero_pad_def)
qed

lemma AddSHA256To_fox:
  "AddSHA256To osol quick_brown_fox h = osol (quick_brown_fox @ replicate 21 0) h"
  using AddSHA256To_short [of quick_brown_fox osol h] by (simp add: length_fox)

lemma asInts_null_little: "asInts LittleEndian Hash256_null = [0, 0, 0, 0, 0, 0, 0, 0]"
  by code_simp

lemma asInts_null_big: "asInts BigEndian Hash256_null = [0, 0, 0, 0, 0, 0, 0, 0]"
  by code_simp

lemma compress_fox:
  "compress (quick_brown_fox @ replicate 21 0) [0, 0, 0, 0, 0, 0, 0, 0] =
   [0x7AC8CCD5, 0xF3291E13, 0xF86CE385, 0x51AC8C6E, 0x6886A0C7, 0xDAC3D702, 0xA64895C6, 0xB2E2EDF4]"
  by code_simp

lemma hex_little:
  "asHexString (concat (map (store_word LittleEndian 4)
     [0x7AC8CCD5 :: 32 word, 0xF3291E13, 0xF86CE385, 0x51AC8C6E,
      0x6886A0C7, 0xDAC3D702, 0xA64895C6, 0xB2E2EDF4])) =
   ''d5ccc87a131e29f385e36cf86e8cac51c7a0866802d7c3dac69548a6f4ede2b2''"
  by (simp add: asHexString_def store_word_def hex_digit_def le_bytes_numeral)

lemma hex_big:
  "asHexString (concat (map (store_word BigEndian 4)
     [0x7AC8CCD5 :: 32 word, 0xF3291E13, 0xF86CE385, 0x51AC8C6E,
      0x6886A0C7, 0xDAC3D702, 0xA64895C6, 0xB2E2EDF4])) =
   ''7ac8ccd5f3291e13f86ce38551ac8c6e6886a0c7dac3d702a64895c6b2e2edf4''"
  by (simp add: asHexString_def store_word_def hex_digit_def le_bytes_numeral)

text \<open>
  The compression function of the model is the one of the standard: on the one
  block of the same message with the padding of FIPS 180 (the byte \<open>0x80\<close>, zeros, and
  the length of 344 bits in 64 bits), from the initial hash value of FIPS 180, it
  gives the digest the test expects.
\<close>

lemma compress_FIPS_fox:
  "compress (quick_brown_fox @ [0x80] @ replicate 12 0 @ [0, 0, 0, 0, 0, 0, 1, 0x58]) sha256_H0 =
   [0xD7A8FBB3, 0x07D78094, 0x69CA9ABC, 0xB0082E4F, 0x8D5651E4, 0x6D3CDB76, 0x2D02D0BF, 0x37C9E592]"
  by code_simp

text \<open>
  C4. The claim is that the empty input hashes to the string
  \<open>e3b0c44298fc1c149afbf4c8996fb92427ae41e4649b934ca495991b7852b855\<close>. The code does not
  give it: with length 0 nothing is compressed, whatever the compression function is,
  so the string is that of the freshly constructed, all-zero \<open>Hash256\<close>, 64 zeros.
\<close>

theorem AddSHA256To_empty_digest:
  "asHexString (AddSHA256To osol [] Hash256_null) =
     ''0000000000000000000000000000000000000000000000000000000000000000'' \<and>
   asHexString (AddSHA256To osol [] Hash256_null) \<noteq>
     ''e3b0c44298fc1c149afbf4c8996fb92427ae41e4649b934ca495991b7852b855''"
proof -
  have "AddSHA256To osol [] Hash256_null = Hash256_null"
    by (simp add: AddSHA256To_def sizeof_block_def osol_blocks.simps)
  moreover have "asHexString Hash256_null =
        ''0000000000000000000000000000000000000000000000000000000000000000''"
    by code_simp
  ultimately show ?thesis by simp
qed

text \<open>
  C5. The claim is that the 43 bytes of "The quick brown fox jumps over the lazy dog"
  hash to \<open>d7a8fbb307d7809469ca9abcb0082e4f8d5651e46d3cdb762d02d0bf37c9e592\<close>. The code
  does not give it: it compresses the one block of the message followed by 21 zero
  bytes into the all-zero \<open>Hash256\<close>, and the string of the result is another one, on a
  little-endian host and on a big-endian host.
\<close>

theorem AddSHA256To_fox_digest:
  "asHexString (AddSHA256To (sha256_osol LittleEndian) quick_brown_fox Hash256_null) =
     ''d5ccc87a131e29f385e36cf86e8cac51c7a0866802d7c3dac69548a6f4ede2b2'' \<and>
   asHexString (AddSHA256To (sha256_osol BigEndian) quick_brown_fox Hash256_null) =
     ''7ac8ccd5f3291e13f86ce38551ac8c6e6886a0c7dac3d702a64895c6b2e2edf4'' \<and>
   asHexString (AddSHA256To (sha256_osol LittleEndian) quick_brown_fox Hash256_null) \<noteq>
     ''d7a8fbb307d7809469ca9abcb0082e4f8d5651e46d3cdb762d02d0bf37c9e592'' \<and>
   asHexString (AddSHA256To (sha256_osol BigEndian) quick_brown_fox Hash256_null) \<noteq>
     ''d7a8fbb307d7809469ca9abcb0082e4f8d5651e46d3cdb762d02d0bf37c9e592''"
proof -
  have little: "asHexString (AddSHA256To (sha256_osol LittleEndian) quick_brown_fox Hash256_null) =
      ''d5ccc87a131e29f385e36cf86e8cac51c7a0866802d7c3dac69548a6f4ede2b2''"
    unfolding AddSHA256To_fox sha256_osol_def asInts_null_little compress_fox
    by (rule hex_little)
  have big: "asHexString (AddSHA256To (sha256_osol BigEndian) quick_brown_fox Hash256_null) =
      ''7ac8ccd5f3291e13f86ce38551ac8c6e6886a0c7dac3d702a64895c6b2e2edf4''"
    unfolding AddSHA256To_fox sha256_osol_def asInts_null_big compress_fox
    by (rule hex_big)
  show ?thesis unfolding little big by simp
qed

end
